theory Spec2Isabelle
  imports Complex_Main "HOL-Library.Log_Nat"
begin

section \<open>Machine integers\<close>

text \<open>
  Go's \<open>int64\<close> and \<open>time.Duration\<close> (an \<open>int64\<close> count of nanoseconds) are modelled
  as \<open>int\<close> with the two's complement wrap-around of \<open>+\<close>, \<open>-\<close> and \<open>++\<close> written out.
\<close>

definition int64 :: "int \<Rightarrow> bool" where
  "int64 x \<longleftrightarrow> - (2 ^ 63) \<le> x \<and> x < 2 ^ 63"

definition wrap64 :: "int \<Rightarrow> int" where
  "wrap64 x = (x + 2 ^ 63) mod 2 ^ 64 - 2 ^ 63"

text \<open>\<open>time.Time.Sub\<close> does not wrap: it returns the largest or smallest Duration instead.\<close>

definition sat64 :: "int \<Rightarrow> int" where
  "sat64 x = (if x < - (2 ^ 63) then - (2 ^ 63) else if 2 ^ 63 \<le> x then 2 ^ 63 - 1 else x)"

section \<open>float64\<close>

text \<open>
  An IEEE 754 binary64 value: a rational, an infinity with its sign (\<open>True\<close> for the
  negative one) or a NaN. The sign of a zero is not tracked: the only divisor here is the
  conversion of an \<open>int64\<close>, which is never the negative zero, and the conversion back
  to \<open>int64\<close> gives 0 for either zero.
\<close>

datatype float64 = Finite rat | Inf bool | NaN

definition pow2 :: "int \<Rightarrow> rat" where
  "pow2 e = (if 0 \<le> e then 2 ^ nat e else 1 / 2 ^ nat (- e))"

text \<open>\<open>ilog2 x\<close> is the exponent \<open>k\<close> with \<open>2\<^sup>k \<le> x < 2\<^sup>k\<^sup>+\<^sup>1\<close>, for \<open>x > 0\<close>.\<close>

definition ilog2 :: "rat \<Rightarrow> int" where
  "ilog2 x = (case quotient_of x of (a, b) \<Rightarrow>
     let k = bitlen a - bitlen b in if pow2 k \<le> x then k else k - 1)"

text \<open>Rounding to the nearest integer, a tie going to the even one.\<close>

definition rne :: "rat \<Rightarrow> int" where
  "rne y = (let f = \<lfloor>y\<rfloor>; d = y - of_int f
            in if d < 1 / 2 then f else if 1 / 2 < d then f + 1
               else if even f then f else f + 1)"

text \<open>
  The binary64 value nearest to a rational, ties to even: 53 significant bits, the
  weight of the last one never below \<open>2\<^sup>-\<^sup>1\<^sup>0\<^sup>7\<^sup>4\<close> (subnormal numbers), and an infinity once the
  rounded magnitude reaches \<open>2\<^sup>1\<^sup>0\<^sup>2\<^sup>4\<close>.
\<close>

definition round64 :: "rat \<Rightarrow> float64" where
  "round64 x =
     (if x = 0 then Finite 0
      else let e = max (ilog2 \<bar>x\<bar> - 52) (- 1074);
               y = of_int (rne (x / pow2 e)) * pow2 e
           in if 2 ^ 1024 \<le> \<bar>y\<bar> then Inf (x < 0) else Finite y)"

text \<open>The conversion \<open>float64(n)\<close> of an \<open>int64\<close>.\<close>

definition int64_to_float64 :: "int \<Rightarrow> float64" where
  "int64_to_float64 n = round64 (of_int n)"

fun fmul :: "float64 \<Rightarrow> float64 \<Rightarrow> float64" where
  "fmul (Finite a) (Finite b) = round64 (a * b)"
| "fmul (Finite a) (Inf s) = (if a = 0 then NaN else Inf (s \<noteq> (a < 0)))"
| "fmul (Inf s) (Finite b) = (if b = 0 then NaN else Inf (s \<noteq> (b < 0)))"
| "fmul (Inf s) (Inf t) = Inf (s \<noteq> t)"
| "fmul NaN _ = NaN"
| "fmul _ NaN = NaN"

fun fdiv :: "float64 \<Rightarrow> float64 \<Rightarrow> float64" where
  "fdiv (Finite a) (Finite b) =
     (if b = 0 then (if a = 0 then NaN else Inf (a < 0)) else round64 (a / b))"
| "fdiv (Finite a) (Inf s) = Finite 0"
| "fdiv (Inf s) (Finite b) = Inf (s \<noteq> (b < 0))"
| "fdiv (Inf s) (Inf t) = NaN"
| "fdiv NaN _ = NaN"
| "fdiv _ NaN = NaN"

text \<open>
  The conversion \<open>int64(f)\<close> drops the fraction (rounds towards zero). For a value that
  \<open>int64\<close> cannot hold (a NaN, an infinity, a magnitude out of range) the Go specification
  makes the conversion succeed with an implementation-dependent result: the parameter
  \<open>arch\<close> is the platform's answer there (some \<open>int64\<close>).
\<close>

definition float64_to_int64 :: "(float64 \<Rightarrow> int) \<Rightarrow> float64 \<Rightarrow> int" where
  "float64_to_int64 arch f =
     (case f of
        Finite x \<Rightarrow>
          (let t = (if 0 \<le> x then \<lfloor>x\<rfloor> else \<lceil>x\<rceil>)
           in if int64 t then t else wrap64 (arch f))
      | _ \<Rightarrow> wrap64 (arch f))"

text \<open>On amd64 the instruction behind the conversion answers \<open>-2\<^sup>6\<^sup>3\<close> in each of these cases.\<close>

definition amd64 :: "float64 \<Rightarrow> int" where
  "amd64 f = - (2 ^ 63)"

section \<open>time.Time\<close>

text \<open>
  A \<open>time.Time\<close> is an instant, here in nanoseconds since the zero Time (January 1, year 1,
  UTC), and a Location pointer. Go's \<open>==\<close> on Time values compares both (and the monotonic
  clock reading, which \<open>Truncate\<close> strips). \<open>time.Time{}\<close> has the nil Location;
  \<open>time.Now()\<close> has the Location \<open>Local\<close>.
\<close>

datatype Location = NilLoc | Local

datatype Time = Time (nsec: int) (loc: Location)

definition zeroTime :: Time where
  "zeroTime = Time 0 NilLoc"

text \<open>\<open>time.Now()\<close>, the wall clock reading \<open>n\<close> as a parameter.\<close>

definition Now :: "int \<Rightarrow> Time" where
  "Now n = Time n Local"

text \<open>
  \<open>t.Truncate(d)\<close> rounds \<open>t\<close> down to a multiple of \<open>d\<close> since the zero Time, and
  returns \<open>t\<close> unchanged for \<open>d \<le> 0\<close>.
\<close>

definition Truncate :: "Time \<Rightarrow> int \<Rightarrow> Time" where
  "Truncate t d = (if d \<le> 0 then t else Time (nsec t - nsec t mod d) (loc t))"

definition Add :: "Time \<Rightarrow> int \<Rightarrow> Time" where
  "Add t d = Time (nsec t + d) (loc t)"

definition Sub :: "Time \<Rightarrow> Time \<Rightarrow> int" where
  "Sub t u = sat64 (nsec t - nsec u)"

section \<open>Rules\<close>

record Rule =
  maxRequests :: int
  unit :: int

record Limiter =
  prevWindow :: Time
  prevCounter :: int
  currWindow :: Time
  currCounter :: int

text \<open>The package's two globals: the rule pointer (nil at start) and the map of limiters.\<close>

record Globals =
  rule :: "Rule option"
  clientLimiterMap :: "string \<rightharpoonup> Limiter"

definition AddRule :: "int \<Rightarrow> int \<Rightarrow> Globals \<Rightarrow> Globals" where
  "AddRule maxRequests' unit' g = g\<lparr>rule := Some \<lparr>maxRequests = maxRequests', unit = unit'\<rparr>\<rparr>"

section \<open>The sliding window counter\<close>

text \<open>\<open>&Limiter{}\<close>: every field has its zero value.\<close>

definition newLimiter :: Limiter where
  "newLimiter = \<lparr>prevWindow = zeroTime, prevCounter = 0, currWindow = zeroTime, currCounter = 0\<rparr>"

text \<open>
  The anonymous function that \<open>Allow\<close> runs under \<open>l.lock\<close>: it moves the windows of the
  limiter to the one \<open>now\<close> falls in.
\<close>

definition Allow_locked :: "Rule \<Rightarrow> Time \<Rightarrow> Limiter \<Rightarrow> Limiter" where
  "Allow_locked r now l =
     (let newCurrWindow = Truncate now (unit r);
          newPrevWindow = Add newCurrWindow (wrap64 (- unit r))
      in if newCurrWindow = currWindow l
         then l\<lparr>currCounter := wrap64 (currCounter l + 1)\<rparr>
         else (if newPrevWindow = currWindow l
               then l\<lparr>prevWindow := currWindow l, prevCounter := currCounter l\<rparr>
               else l\<lparr>prevWindow := zeroTime, prevCounter := 0\<rparr>)
              \<lparr>currWindow := newCurrWindow, currCounter := 0\<rparr>)"

text \<open>The three values \<open>Allow\<close> computes after the update, from the limiter as updated.\<close>

definition prevWindowOverlap :: "Rule \<Rightarrow> Time \<Rightarrow> Limiter \<Rightarrow> int" where
  "prevWindowOverlap r now l = wrap64 (unit r - Sub now (currWindow l))"

definition prevWindowWeightedCounter :: "(float64 \<Rightarrow> int) \<Rightarrow> Rule \<Rightarrow> Time \<Rightarrow> Limiter \<Rightarrow> int" where
  "prevWindowWeightedCounter arch r now l =
     float64_to_int64 arch
       (fmul (int64_to_float64 (prevCounter l))
             (fdiv (int64_to_float64 (prevWindowOverlap r now l)) (int64_to_float64 (unit r))))"

definition activeNumRequests :: "(float64 \<Rightarrow> int) \<Rightarrow> Rule \<Rightarrow> Time \<Rightarrow> Limiter \<Rightarrow> int" where
  "activeNumRequests arch r now l = wrap64 (prevWindowWeightedCounter arch r now l + currCounter l)"

text \<open>\<open>l.Allow()\<close> under the rule \<open>r\<close>, with the clock reading \<open>n\<close>: the limiter as updated,
  the decision and the duration.\<close>

definition Allow :: "(float64 \<Rightarrow> int) \<Rightarrow> Rule \<Rightarrow> int \<Rightarrow> Limiter \<Rightarrow> Limiter \<times> (bool \<times> int)" where
  "Allow arch r n l =
     (let now = Now n;
          l' = Allow_locked r now l
      in (l', (activeNumRequests arch r now l' < maxRequests r, prevWindowOverlap r now l')))"

text \<open>
  \<open>AllowRequest(clientId)\<close>, the calls of one client one after the other. The map
  holds pointers and \<open>Allow\<close> updates the Limiter in place: the model puts the updated
  Limiter under the key, for a Limiter that was found as for one that was just created and
  stored.
\<close>

definition AllowRequest :: "(float64 \<Rightarrow> int) \<Rightarrow> string \<Rightarrow> int \<Rightarrow> Globals \<Rightarrow> Globals \<times> (bool \<times> int)" where
  "AllowRequest arch clientId n g =
     (case rule g of
        None \<Rightarrow> (g, (True, - 1))
      | Some r \<Rightarrow>
          (let l = (case clientLimiterMap g clientId of Some val \<Rightarrow> val | None \<Rightarrow> newLimiter);
               (l', res) = Allow arch r n l
           in (g\<lparr>clientLimiterMap := (clientLimiterMap g)(clientId \<mapsto> l')\<rparr>, res)))"

section \<open>Calls in sequence\<close>

text \<open>
  The calls \<open>l.Allow()\<close> made one after the other on one limiter, at the clock readings
  \<open>ns\<close>: the limiter at the end and the result of each call.
\<close>

fun Allow_seq :: "(float64 \<Rightarrow> int) \<Rightarrow> Rule \<Rightarrow> int list \<Rightarrow> Limiter \<Rightarrow> Limiter \<times> (bool \<times> int) list" where
  "Allow_seq arch r [] l = (l, [])"
| "Allow_seq arch r (n # ns) l =
     (let (l', res) = Allow arch r n l;
          (l'', rs) = Allow_seq arch r ns l'
      in (l'', res # rs))"

section \<open>Calls in parallel\<close>

text \<open>
  Goroutines that each run \<open>AllowRequest(clientId)\<close> once, a rule being set. The shared
  state is the \<open>sync.Map\<close>, which holds pointers, and the Limiters allocated so far (a
  pointer is an index in that list). A goroutine is at one of four places:
  before the \<open>Load\<close>; after a \<open>Load\<close> that found nothing; holding its pointer \<open>l\<close>,
  before \<open>l.Allow()\<close>; returned. Each step is one atomic action of the source: the
  \<open>Load\<close>, the \<open>Store\<close> of a new Limiter (the allocation before it is local to the
  goroutine), the call \<open>l.Allow()\<close> (its update of the Limiter runs under the Limiter's
  lock, and what it does before and after touches nothing that is shared but the rule).
\<close>

datatype pc = AtLoad | AtStore | AtAllow nat | Returned bool int

record conf =
  limiterMap :: "string \<rightharpoonup> nat"
  limiters :: "Limiter list"
  goroutines :: "pc list"

text \<open>One step of goroutine \<open>i\<close>; \<open>clock i\<close> is what \<open>time.Now()\<close> reads in its call of
  \<open>Allow\<close>.\<close>

definition step :: "(float64 \<Rightarrow> int) \<Rightarrow> Rule \<Rightarrow> string \<Rightarrow> (nat \<Rightarrow> int) \<Rightarrow> nat \<Rightarrow> conf \<Rightarrow> conf" where
  "step arch r clientId clock i c =
     (if length (goroutines c) \<le> i then c
      else case goroutines c ! i of
        AtLoad \<Rightarrow>
          (case limiterMap c clientId of
             Some a \<Rightarrow> c\<lparr>goroutines := (goroutines c)[i := AtAllow a]\<rparr>
           | None \<Rightarrow> c\<lparr>goroutines := (goroutines c)[i := AtStore]\<rparr>)
      | AtStore \<Rightarrow>
          (let a = length (limiters c)
           in c\<lparr>limiterMap := (limiterMap c)(clientId \<mapsto> a),
                limiters := limiters c @ [newLimiter],
                goroutines := (goroutines c)[i := AtAllow a]\<rparr>)
      | AtAllow a \<Rightarrow>
          (if length (limiters c) \<le> a then c
           else let (l', ok, d) = Allow arch r (clock i) (limiters c ! a)
                in c\<lparr>limiters := (limiters c)[a := l'],
                     goroutines := (goroutines c)[i := Returned ok d]\<rparr>)
      | Returned ok d \<Rightarrow> c)"

text \<open>A schedule names the goroutine that takes each step.\<close>

fun run :: "(float64 \<Rightarrow> int) \<Rightarrow> Rule \<Rightarrow> string \<Rightarrow> (nat \<Rightarrow> int) \<Rightarrow> nat list \<Rightarrow> conf \<Rightarrow> conf" where
  "run arch r clientId clock [] c = c"
| "run arch r clientId clock (i # sched) c =
     run arch r clientId clock sched (step arch r clientId clock i c)"

text \<open>The schedule of \<open>N\<close> goroutines that run one after the other, three steps each
  (a goroutine that finds the Limiter in the map has returned after two, and its third
  step does nothing).\<close>

definition sequential :: "nat \<Rightarrow> nat list" where
  "sequential N = concat (map (\<lambda>i. [i, i, i]) [0..<N])"

section \<open>Facts about the float64 operations\<close>

text \<open>Powers of two, the exponent of a rational and the rounding to the nearest integer.\<close>

lemma pow2_powi: "pow2 e = power_int 2 e"
proof (cases "0 \<le> e")
  case True
  then show ?thesis by (simp add: pow2_def power_int_def)
next
  case False
  then show ?thesis
    by (simp add: pow2_def power_int_def power_one_over [symmetric] inverse_eq_divide)
qed

lemma pow2_pos [simp]: "0 < pow2 e"
  by (simp add: pow2_powi)

lemma pow2_nonneg [simp]: "0 \<le> pow2 e"
  using pow2_pos [of e] by (rule less_imp_le)

lemma pow2_neq0 [simp]: "pow2 e \<noteq> 0"
  using pow2_pos [of e] by (rule less_imp_neq [symmetric])

lemma abs_pow2 [simp]: "\<bar>pow2 e\<bar> = pow2 e"
  by simp

lemma pow2_diff: "pow2 (a - b) = pow2 a / pow2 b"
  by (simp add: pow2_powi power_int_diff)

lemma pow2_0 [simp]: "pow2 0 = 1"
  by (simp add: pow2_def)

lemma pow2_nat: "0 \<le> e \<Longrightarrow> pow2 e = 2 ^ nat e"
  by (simp add: pow2_def)

lemma pow2_mono: "a \<le> b \<Longrightarrow> pow2 a \<le> pow2 b"
  by (simp add: pow2_powi power_int_increasing)

lemma pow2_strict_mono: "a < b \<Longrightarrow> pow2 a < pow2 b"
  by (simp add: pow2_powi power_int_strict_increasing)

lemma pow2_le_iff: "pow2 a \<le> pow2 b \<longleftrightarrow> a \<le> b"
  using pow2_mono [of a b] pow2_strict_mono [of b a] by (auto simp: not_le [symmetric])

lemma pow2_less_iff: "pow2 a < pow2 b \<longleftrightarrow> a < b"
  using pow2_mono [of b a] pow2_strict_mono [of a b] by (auto simp: not_less [symmetric])

lemma bitlen_bounds_rat:
  assumes "0 < a"
  shows "pow2 (bitlen a - 1) \<le> of_int a" and "(of_int a :: rat) < pow2 (bitlen a)"
proof -
  from assms have b1: "1 \<le> bitlen a"
    using bitlen_eq_zero_iff [of a] bitlen_nonneg [of a] by linarith
  from bitlen_bounds [OF assms] have lo: "2 ^ nat (bitlen a - 1) \<le> a" and hi: "a < 2 ^ nat (bitlen a)"
    by simp_all
  have "(of_int (2 ^ nat (bitlen a - 1)) :: rat) \<le> of_int a"
    using lo by (simp only: of_int_le_iff)
  then show "pow2 (bitlen a - 1) \<le> of_int a"
    using b1 by (simp add: pow2_nat)
  have "(of_int a :: rat) < of_int (2 ^ nat (bitlen a))"
    using hi by (simp only: of_int_less_iff)
  then show "(of_int a :: rat) < pow2 (bitlen a)"
    using b1 by (simp add: pow2_nat)
qed

lemma ilog2_bounds:
  assumes "0 < x"
  shows "pow2 (ilog2 x) \<le> x \<and> x < pow2 (ilog2 x + 1)"
proof -
  obtain a b where q: "quotient_of x = (a, b)" by (cases "quotient_of x")
  have bpos: "0 < b" using q by (rule quotient_of_denom_pos)
  have xeq: "x = of_int a / of_int b" using q by (rule quotient_of_div)
  have apos: "0 < a"
    using assms bpos xeq by (simp add: zero_less_divide_iff)
  let ?k = "bitlen a - bitlen b"
  have B: "0 < (of_int b :: rat)" using bpos by simp
  have up: "x < pow2 (?k + 1)"
  proof -
    have "of_int a < pow2 (bitlen a)" using apos by (rule bitlen_bounds_rat)
    moreover have "pow2 (bitlen b - 1) \<le> of_int b" using bpos by (rule bitlen_bounds_rat)
    ultimately have "of_int a * pow2 (bitlen b - 1) < pow2 (bitlen a) * of_int b"
      by (meson B mult_less_le_imp_less of_int_0_le_iff apos less_imp_le pow2_pos)
    then have "x * pow2 (bitlen b - 1) < pow2 (bitlen a)"
      using B by (simp add: xeq field_simps)
    then have "x < pow2 (bitlen a) / pow2 (bitlen b - 1)"
      by (simp add: pos_less_divide_eq)
    also have "\<dots> = pow2 (?k + 1)"
      by (simp add: pow2_diff [symmetric] algebra_simps)
    finally show ?thesis .
  qed
  have lo: "pow2 (?k - 1) \<le> x"
  proof -
    have "pow2 (bitlen a - 1) \<le> of_int a" using apos by (rule bitlen_bounds_rat)
    moreover have "of_int b < pow2 (bitlen b)" using bpos by (rule bitlen_bounds_rat)
    ultimately have "pow2 (bitlen a - 1) * of_int b \<le> of_int a * pow2 (bitlen b)"
      by (meson B mult_mono less_imp_le pow2_pos of_int_0_le_iff apos order_trans)
    then have "pow2 (bitlen a - 1) \<le> x * pow2 (bitlen b)"
      using B by (simp add: xeq field_simps)
    then have "pow2 (bitlen a - 1) / pow2 (bitlen b) \<le> x"
      by (simp add: pos_divide_le_eq)
    moreover have "pow2 (bitlen a - 1) / pow2 (bitlen b) = pow2 (?k - 1)"
      by (simp add: pow2_diff [symmetric] algebra_simps)
    ultimately show ?thesis by simp
  qed
  show ?thesis
  proof (cases "pow2 ?k \<le> x")
    case True
    then have "ilog2 x = ?k" by (simp add: ilog2_def q)
    with True up show ?thesis by simp
  next
    case False
    then have "ilog2 x = ?k - 1" by (simp add: ilog2_def q)
    with False lo show ?thesis by simp
  qed
qed

lemma ilog2_unique:
  assumes "0 < x" and "pow2 k \<le> x" and "x < pow2 (k + 1)"
  shows "ilog2 x = k"
proof -
  from ilog2_bounds [OF assms(1)] have a: "pow2 (ilog2 x) \<le> x" and b: "x < pow2 (ilog2 x + 1)"
    by simp_all
  from a assms(3) have "pow2 (ilog2 x) < pow2 (k + 1)" by (rule le_less_trans)
  then have "ilog2 x < k + 1" by (simp add: pow2_less_iff)
  moreover from assms(2) b have "pow2 k < pow2 (ilog2 x + 1)" by (rule le_less_trans)
  then have "k < ilog2 x + 1" by (simp add: pow2_less_iff)
  ultimately show ?thesis by simp
qed

lemma rne_err: "\<bar>of_int (rne y) - y\<bar> \<le> 1 / 2"
proof -
  have "of_int \<lfloor>y\<rfloor> \<le> y" "y < of_int \<lfloor>y\<rfloor> + 1" by linarith+
  then show ?thesis
    by (auto simp: rne_def Let_def abs_le_iff)
qed

lemma rne_near:
  assumes "\<bar>y - of_int m\<bar> < 1 / 2"
  shows "rne y = m"
proof -
  have f1: "of_int \<lfloor>y\<rfloor> \<le> y" "y < of_int \<lfloor>y\<rfloor> + 1" by linarith+
  have a: "of_int m - 1 / 2 < y" "y < of_int m + 1 / 2"
    using assms by linarith+
  have cases: "\<lfloor>y\<rfloor> = m \<or> \<lfloor>y\<rfloor> = m - 1"
  proof -
    have "(of_int m :: rat) - 1 < of_int \<lfloor>y\<rfloor> + 1" using a f1 by linarith
    then have "of_int (m - 1) < (of_int (\<lfloor>y\<rfloor> + 1) :: rat)" by simp
    then have l: "m - 1 < \<lfloor>y\<rfloor> + 1" by (simp only: of_int_less_iff)
    have "(of_int \<lfloor>y\<rfloor> :: rat) < of_int m + 1" using a f1 by linarith
    then have "(of_int \<lfloor>y\<rfloor> :: rat) < of_int (m + 1)" by simp
    then have "\<lfloor>y\<rfloor> < m + 1" by (simp only: of_int_less_iff)
    with l show ?thesis by linarith
  qed
  then show ?thesis
  proof
    assume e: "\<lfloor>y\<rfloor> = m"
    then have "y - of_int \<lfloor>y\<rfloor> < 1 / 2" using a by simp
    then show ?thesis by (simp add: rne_def Let_def e)
  next
    assume e: "\<lfloor>y\<rfloor> = m - 1"
    then have "1 / 2 < y - of_int \<lfloor>y\<rfloor>" using a by simp
    then show ?thesis by (simp add: rne_def Let_def e)
  qed
qed

lemma rne_of_int [simp]: "rne (of_int m) = m"
  by (rule rne_near) simp

text \<open>In the normal range the rounding is finite and off by at most half a unit in the
  last place, hence by at most the fraction \<open>2\<^sup>-\<^sup>5\<^sup>3\<close> of the value.\<close>

lemma round64_pos:
  assumes x: "0 < x" and lo: "pow2 (- 1022) \<le> x" and hi: "x < pow2 1023"
  shows "\<exists>y. round64 x = Finite y \<and> \<bar>y - x\<bar> \<le> x / 2 ^ 53"
proof -
  define k where "k = ilog2 x"
  have kb: "pow2 k \<le> x" "x < pow2 (k + 1)"
    using ilog2_bounds [OF x] by (simp_all add: k_def)
  have "pow2 (- 1022) < pow2 (k + 1)" using lo kb(2) by (rule le_less_trans)
  then have k1: "- 1022 \<le> k" by (simp add: pow2_less_iff)
  have "pow2 k < pow2 1023" using kb(1) hi by (rule le_less_trans)
  then have k2: "k < 1023" by (simp add: pow2_less_iff)
  define e where "e = k - 52"
  have e: "max (ilog2 x - 52) (- 1074) = e"
    using k1 by (simp add: e_def k_def)
  define y where "y = of_int (rne (x / pow2 e)) * pow2 e"
  have "\<bar>of_int (rne (x / pow2 e)) - x / pow2 e\<bar> \<le> 1 / 2" by (rule rne_err)
  then have "\<bar>of_int (rne (x / pow2 e)) - x / pow2 e\<bar> * pow2 e \<le> 1 / 2 * pow2 e"
    by (rule mult_right_mono) (rule less_imp_le, rule pow2_pos)
  moreover have "\<bar>of_int (rne (x / pow2 e)) - x / pow2 e\<bar> * pow2 e = \<bar>y - x\<bar>"
  proof -
    have "\<bar>of_int (rne (x / pow2 e)) - x / pow2 e\<bar> * pow2 e
        = \<bar>(of_int (rne (x / pow2 e)) - x / pow2 e) * pow2 e\<bar>"
      by (simp add: abs_mult)
    also have "(of_int (rne (x / pow2 e)) - x / pow2 e) * pow2 e = y - x"
      by (simp add: y_def algebra_simps)
    finally show ?thesis .
  qed
  ultimately have d: "\<bar>y - x\<bar> \<le> pow2 e / 2" by simp
  have "pow2 e / 2 = pow2 k / 2 ^ 53"
  proof -
    have "pow2 e = pow2 k / pow2 52" by (simp add: e_def pow2_diff)
    then show ?thesis by (simp add: pow2_def)
  qed
  also have "\<dots> \<le> x / 2 ^ 53" using kb(1) by (simp add: divide_right_mono)
  finally have d2: "pow2 e / 2 \<le> x / 2 ^ 53" .
  with d have err: "\<bar>y - x\<bar> \<le> x / 2 ^ 53" by linarith
  have "x / 2 ^ 53 \<le> x" using x by (simp add: field_simps)
  with err have "\<bar>y\<bar> \<le> 2 * x" using x by linarith
  also have "\<dots> < 2 * pow2 1023" using hi by simp
  also have "\<dots> = 2 ^ 1024" by (simp add: pow2_def)
  finally have fin: "\<not> 2 ^ 1024 \<le> \<bar>y\<bar>" by simp
  have "round64 x = Finite y"
    using x fin by (simp add: round64_def e Let_def y_def)
  with err show ?thesis by blast
qed

text \<open>Evaluating a rounding: the exponent and the nearest multiple are given and checked.\<close>

lemma round64_near:
  assumes x: "0 < x" and lo: "pow2 k \<le> x" and hi: "x < pow2 (k + 1)"
    and k1: "- 1022 \<le> k" and k2: "k < 1023"
    and m: "\<bar>x / pow2 (k - 52) - of_int m\<bar> < 1 / 2"
  shows "round64 x = Finite (of_int m * pow2 (k - 52))"
proof -
  have k: "ilog2 x = k" using x lo hi by (rule ilog2_unique)
  have e: "max (ilog2 x - 52) (- 1074) = k - 52"
    using k1 by (simp add: k)
  have r: "rne (x / pow2 (k - 52)) = m" using m by (rule rne_near)
  have "pow2 (- 1022) \<le> pow2 k" using k1 by (rule pow2_mono)
  then have lo': "pow2 (- 1022) \<le> x" using lo by linarith
  have "pow2 (k + 1) \<le> pow2 1023" using k2 by (simp add: pow2_le_iff)
  then have hi': "x < pow2 1023" using hi by linarith
  from round64_pos [OF x lo' hi'] obtain y where "round64 x = Finite y" by blast
  then show ?thesis
    using x by (simp add: round64_def e r Let_def split: if_splits)
qed

lemma round64_int:
  assumes "0 \<le> n" and "n \<le> 2 ^ 53"
  shows "round64 (of_int n) = Finite (of_int n)"
proof (cases "n = 0")
  case True
  then show ?thesis by (simp add: round64_def)
next
  case False
  with assms have npos: "0 < n" by simp
  then have x: "0 < (of_int n :: rat)" by simp
  define k where "k = ilog2 (of_int n)"
  have kb: "pow2 k \<le> of_int n" "of_int n < pow2 (k + 1)"
    using ilog2_bounds [OF x] by (simp_all add: k_def)
  have "(1::rat) \<le> of_int n" using npos by (simp add: of_int_le_iff [of 1 n, simplified])
  then have "pow2 0 < pow2 (k + 1)" using kb(2) by simp
  then have k0: "0 \<le> k" by (simp only: pow2_less_iff)
  have "(of_int n :: rat) \<le> of_int (2 ^ 53)" using assms(2) by (simp only: of_int_le_iff)
  then have "(of_int n :: rat) \<le> pow2 53" by (simp add: pow2_def)
  with kb(1) have "pow2 k \<le> pow2 53" by linarith
  then have k53: "k \<le> 53" by (simp only: pow2_le_iff)
  have m: "\<exists>m. (of_int n :: rat) / pow2 (k - 52) = of_int m"
  proof (cases "k = 53")
    case True
    then have "pow2 53 \<le> (of_int n :: rat)" using kb(1) by simp
    with \<open>(of_int n :: rat) \<le> pow2 53\<close> have "(of_int n :: rat) = pow2 53" by simp
    then have "(of_int n :: rat) / pow2 (k - 52) = of_int (2 ^ 52)"
      using True by (simp add: pow2_def)
    then show ?thesis by blast
  next
    case False
    with k53 have "k \<le> 52" by simp
    then have "pow2 (k - 52) = 1 / 2 ^ nat (52 - k)"
      by (cases "k = 52") (simp_all add: pow2_def)
    then have "(of_int n :: rat) / pow2 (k - 52) = of_int (n * 2 ^ nat (52 - k))"
      by simp
    then show ?thesis by blast
  qed
  then obtain m where m: "(of_int n :: rat) / pow2 (k - 52) = of_int m" by blast
  have "round64 (of_int n) = Finite (of_int m * pow2 (k - 52))"
    by (rule round64_near [OF x kb]) (use k0 k53 m in simp_all)
  moreover have "of_int m * pow2 (k - 52) = (of_int n :: rat)"
    using m [symmetric] by simp
  ultimately show ?thesis by simp
qed

lemma int64_to_float64_exact:
  "0 \<le> n \<Longrightarrow> n \<le> 2 ^ 53 \<Longrightarrow> int64_to_float64 n = Finite (of_int n)"
  by (simp add: int64_to_float64_def round64_int)

text \<open>
  The roundings of two examples. \<open>0.8\<close> as a float64 lies above 4/5, and its product with
  5 rounds to 4. \<open>0.29\<close> as a float64 lies below 29/100, and its product with 100 rounds
  to the float64 next below 29.
\<close>

lemma round64_4_5: "round64 (4 / 5) = Finite (7205759403792794 / 9007199254740992)"
  using round64_near [of "4 / 5" "- 1" 7205759403792794]
  by (simp add: pow2_def)

lemma round64_5x: "round64 (18014398509481985 / 4503599627370496) = Finite 4"
  using round64_near [of "18014398509481985 / 4503599627370496" 2 4503599627370496]
  by (simp add: pow2_def)

lemma round64_29_100: "round64 (29 / 100) = Finite (5224175567749775 / 18014398509481984)"
  using round64_near [of "29 / 100" "- 2" 5224175567749775]
  by (simp add: pow2_def)

lemma round64_100x:
  "round64 (130604389193744375 / 4503599627370496) = Finite (8162774324609023 / 281474976710656)"
  using round64_near [of "130604389193744375 / 4503599627370496" 4 8162774324609023]
  by (simp add: pow2_def)

lemma weighted_5_08:
  "float64_to_int64 arch (fmul (int64_to_float64 5)
     (fdiv (int64_to_float64 800000000) (int64_to_float64 1000000000))) = 4"
  by (simp add: int64_to_float64_exact round64_4_5 round64_5x float64_to_int64_def int64_def)

lemma floor_100x: "\<lfloor>8162774324609023 / 281474976710656 :: rat\<rfloor> = 28"
  by (rule floor_unique) simp_all

lemma weighted_100_029:
  "float64_to_int64 arch (fmul (int64_to_float64 100)
     (fdiv (int64_to_float64 290000000) (int64_to_float64 1000000000))) = 28"
  by (simp add: int64_to_float64_exact round64_29_100 round64_100x float64_to_int64_def int64_def
      floor_100x)

lemma pow2_numeral_le_one: "pow2 (- 1022) \<le> 1 / 2 ^ 70"
proof -
  have "pow2 (- 1022) \<le> pow2 (- 70)" by (rule pow2_mono) simp
  then show ?thesis by (simp add: pow2_def)
qed

lemma pow2_numeral_ge: "2 ^ 70 \<le> pow2 1023"
proof -
  have "pow2 70 \<le> pow2 1023" by (rule pow2_mono) simp
  then show ?thesis by (simp add: pow2_def)
qed

text \<open>A rounding in the range the limiter's numbers live in, with the crude bounds
  that follow from the error bound.\<close>

lemma round64_range:
  assumes lo: "1 / 2 ^ 70 \<le> x" and hi: "x \<le> 2 ^ 69"
  shows "\<exists>y. round64 x = Finite y \<and> \<bar>y - x\<bar> \<le> x / 2 ^ 53 \<and> x / 2 \<le> y \<and> y \<le> 2 * x"
proof -
  have x: "0 < x" using lo by (rule less_le_trans [rotated]) simp
  have l: "pow2 (- 1022) \<le> x" using pow2_numeral_le_one lo by (rule order_trans)
  have "x < 2 ^ 70" using hi by (rule le_less_trans) simp
  then have h: "x < pow2 1023" using pow2_numeral_ge by (rule less_le_trans)
  from round64_pos [OF x l h] obtain y where y: "round64 x = Finite y" "\<bar>y - x\<bar> \<le> x / 2 ^ 53"
    by blast
  have "x / 2 ^ 53 \<le> x / 2" using x by (simp add: field_simps)
  with y(2) have "x / 2 \<le> y" "y \<le> 2 * x" using x by linarith+
  with y show ?thesis by blast
qed

lemma int64_to_float64_pos:
  assumes "0 < n" and "n < 2 ^ 63"
  shows "\<exists>a. int64_to_float64 n = Finite a \<and> \<bar>a - of_int n\<bar> \<le> of_int n / 2 ^ 53
           \<and> of_int n / 2 \<le> a \<and> a \<le> 2 * of_int n"
proof -
  have "1 \<le> n" using assms(1) by simp
  then have "(of_int 1 :: rat) \<le> of_int n" by (simp only: of_int_le_iff)
  then have one: "(1::rat) \<le> of_int n" by simp
  have lo: "1 / 2 ^ 70 \<le> (of_int n :: rat)"
    by (rule order_trans [OF _ one]) simp
  have "(of_int n :: rat) < of_int (2 ^ 63)" using assms(2) by (simp only: of_int_less_iff)
  then have hi: "(of_int n :: rat) \<le> 2 ^ 69" by simp
  from round64_range [OF lo hi] show ?thesis by (simp add: int64_to_float64_def)
qed

lemma int64_to_float64_nonneg:
  assumes "0 \<le> n" and "n < 2 ^ 63"
  shows "\<exists>a. int64_to_float64 n = Finite a \<and> of_int n / 2 \<le> a \<and> a \<le> 2 * of_int n"
proof (cases "n = 0")
  case True
  then show ?thesis by (simp add: int64_to_float64_def round64_def)
next
  case False
  with assms have "0 < n" by simp
  from int64_to_float64_pos [OF this assms(2)] show ?thesis by blast
qed

lemma round64_0: "round64 0 = Finite 0"
  by (simp add: round64_def)

text \<open>The quotient of the overlap by the unit, as \<open>Allow\<close> computes it.\<close>

lemma half_le: "q / 2 \<le> w \<Longrightarrow> c \<le> q \<Longrightarrow> c / 2 \<le> (w::rat)"
  by linarith

lemma twice_le: "w \<le> 2 * q \<Longrightarrow> q \<le> c \<Longrightarrow> w \<le> 2 * (c::rat)"
  by linarith

lemma fdiv_ratio:
  assumes o: "0 < ov" "ov \<le> u" and u: "u < 2 ^ 63"
  shows "\<exists>w. fdiv (int64_to_float64 ov) (int64_to_float64 u) = Finite w \<and> 1 / 2 ^ 66 \<le> w \<and> w \<le> 8"
proof -
  have ov63: "ov < 2 ^ 63" using o(2) u by simp
  have upos: "0 < u" using o by simp
  from int64_to_float64_pos [OF o(1) ov63] obtain a where
    a: "int64_to_float64 ov = Finite a" "of_int ov / 2 \<le> a" "a \<le> 2 * of_int ov" by blast
  from int64_to_float64_pos [OF upos u] obtain b where
    b: "int64_to_float64 u = Finite b" "of_int u / 2 \<le> b" "b \<le> 2 * of_int u" by blast
  have O1: "(1::rat) \<le> of_int ov" using o(1) by (simp add: of_int_le_iff [of 1 ov, simplified])
  have OU: "(of_int ov :: rat) \<le> of_int u" using o(2) by (simp only: of_int_le_iff)
  have "(of_int u :: rat) < of_int (2 ^ 63)" using u by (simp only: of_int_less_iff)
  then have U63: "(of_int u :: rat) < 2 ^ 63" by simp
  have apos: "0 < a" using a(2) O1 by linarith
  have bpos: "0 < b" using b(2) O1 OU by linarith
  have hi: "a / b \<le> 4"
  proof -
    have "a \<le> 4 * b" using a(3) b(2) OU by linarith
    then show ?thesis using bpos by (simp add: pos_divide_le_eq)
  qed
  have lo: "1 / 2 ^ 65 \<le> a / b"
  proof -
    have "b \<le> 2 ^ 64" using b(3) U63 by simp
    moreover have "1 / 2 \<le> a" using a(2) O1 by linarith
    ultimately have "b \<le> 2 ^ 65 * a" by simp
    then show ?thesis using bpos by (simp add: field_simps)
  qed
  have lo': "1 / 2 ^ 70 \<le> a / b" by (rule order_trans [OF _ lo]) simp
  have hi': "a / b \<le> 2 ^ 69" by (rule order_trans [OF hi]) simp
  from round64_range [OF lo' hi'] obtain w where
    w: "round64 (a / b) = Finite w" "a / b / 2 \<le> w" "w \<le> 2 * (a / b)" by blast
  have "fdiv (int64_to_float64 ov) (int64_to_float64 u) = Finite w"
    using bpos by (simp add: a(1) b(1) w(1))
  moreover have "1 / 2 ^ 66 \<le> w" using half_le [OF w(2) lo] by simp
  moreover have "w \<le> 8" using twice_le [OF w(3) hi] by simp
  ultimately show ?thesis by blast
qed

lemma float64_to_int64_nonneg:
  assumes "0 \<le> y" and "y \<le> 2 ^ 62"
  shows "float64_to_int64 arch (Finite y) = \<lfloor>y\<rfloor>"
proof -
  have "0 \<le> \<lfloor>y\<rfloor>" using assms(1) by simp
  moreover have "\<lfloor>y\<rfloor> \<le> 2 ^ 62"
  proof -
    have "y \<le> of_int (2 ^ 62)" using assms(2) by simp
    then have "\<lfloor>y\<rfloor> \<le> \<lfloor>of_int (2 ^ 62) :: rat\<rfloor>" by (rule floor_mono)
    then show ?thesis by simp
  qed
  ultimately have "int64 \<lfloor>y\<rfloor>" by (simp add: int64_def)
  then show ?thesis using assms(1) by (simp add: float64_to_int64_def)
qed

text \<open>The weighted counter is an \<open>int64\<close> between 0 and 32 times the counter (a crude
  bound, enough to rule the wrap-around out).\<close>

lemma weighted_crude:
  assumes p: "0 \<le> p" "p < 2 ^ 57" and o: "0 < ov" "ov \<le> u" and u: "u < 2 ^ 63"
  shows "0 \<le> float64_to_int64 arch (fmul (int64_to_float64 p)
            (fdiv (int64_to_float64 ov) (int64_to_float64 u)))
       \<and> float64_to_int64 arch (fmul (int64_to_float64 p)
            (fdiv (int64_to_float64 ov) (int64_to_float64 u))) \<le> 32 * p"
proof -
  from fdiv_ratio [OF o u] obtain w where
    w: "fdiv (int64_to_float64 ov) (int64_to_float64 u) = Finite w" "1 / 2 ^ 66 \<le> w" "w \<le> 8"
    by blast
  show ?thesis
  proof (cases "p = 0")
    case True
    then have "int64_to_float64 p = Finite 0" by (simp add: int64_to_float64_def round64_0)
    then show ?thesis
      using True by (simp add: w(1) round64_0 float64_to_int64_def int64_def)
  next
    case False
    with p have ppos: "0 < p" by simp
    have p63: "p < 2 ^ 63" using p(2) by simp
    from int64_to_float64_pos [OF ppos p63] obtain a where
      a: "int64_to_float64 p = Finite a" "of_int p / 2 \<le> a" "a \<le> 2 * of_int p" by blast
    have P1: "(1::rat) \<le> of_int p" using ppos by (simp add: of_int_le_iff [of 1 p, simplified])
    have "(of_int p :: rat) < of_int (2 ^ 57)" using p(2) by (simp only: of_int_less_iff)
    then have P57: "(of_int p :: rat) < 2 ^ 57" by simp
    have a1: "1 / 2 \<le> a" using a(2) P1 by linarith
    have wpos: "0 < w" using w(2) by (rule less_le_trans [rotated]) simp
    have lo: "1 / 2 ^ 67 \<le> a * w"
    proof -
      have a0: "0 \<le> a" using a1 by linarith
      have "1 / 2 * (1 / 2 ^ 66) \<le> a * w"
        using a1 w(2) by (rule mult_mono) (use a0 in simp_all)
      then show ?thesis by simp
    qed
    have hi: "a * w \<le> 16 * of_int p"
    proof -
      have "a * w \<le> (2 * of_int p) * 8"
        using a(3) w(3) by (rule mult_mono) (use P1 wpos in simp_all)
      then show ?thesis by simp
    qed
    have lo': "1 / 2 ^ 70 \<le> a * w" by (rule order_trans [OF _ lo]) simp
    have hi': "a * w \<le> 2 ^ 69" using hi P57 by simp
    from round64_range [OF lo' hi'] obtain y where
      y: "round64 (a * w) = Finite y" "a * w / 2 \<le> y" "y \<le> 2 * (a * w)" by blast
    have y0: "0 \<le> y" using half_le [OF y(2) lo] by simp
    have y32: "y \<le> 32 * of_int p" using twice_le [OF y(3) hi] by simp
    then have y62: "y \<le> 2 ^ 62" using P57 by simp
    have conv: "float64_to_int64 arch (fmul (int64_to_float64 p)
        (fdiv (int64_to_float64 ov) (int64_to_float64 u))) = \<lfloor>y\<rfloor>"
      by (simp add: w(1) a(1) y(1) float64_to_int64_nonneg [OF y0 y62])
    have "\<lfloor>y\<rfloor> \<le> 32 * p" unfolding floor_le_iff using y32 by simp
    moreover have "0 \<le> \<lfloor>y\<rfloor>" using y0 by simp
    ultimately show ?thesis by (simp only: conv)
  qed
qed

text \<open>
  The weighted counter against the exact quotient: with the counter and the unit small
  enough for the two roundings to stay below one unit's share, the float64 product is
  cut to the quotient or to one less.
\<close>

lemma weighted_floor_pos:
  assumes p0: "0 < p" and o0: "0 < ov" and ou: "ov \<le> u" and pu: "p * u \<le> 2 ^ 51"
  shows "float64_to_int64 arch (fmul (int64_to_float64 p)
            (fdiv (int64_to_float64 ov) (int64_to_float64 u))) \<in> {p * ov div u - 1, p * ov div u}"
proof -
  have u0: "0 < u" using o0 ou by simp
  have "p * 1 \<le> p * u" using p0 u0 by (intro mult_left_mono) simp_all
  then have p51: "p \<le> 2 ^ 51" using pu by simp
  have "1 * u \<le> p * u" using p0 u0 by (intro mult_right_mono) simp_all
  then have u51: "u \<le> 2 ^ 51" using pu by simp
  have o51: "ov \<le> 2 ^ 51" using ou u51 by simp
  have po: "p * ov \<le> 2 ^ 51"
  proof -
    have "p * ov \<le> p * u" using p0 ou by (intro mult_left_mono) simp_all
    then show ?thesis using pu by simp
  qed
  define P :: rat where "P = of_int p"
  define V :: rat where "V = of_int ov"
  define U :: rat where "U = of_int u"
  have P1: "1 \<le> P" using p0 by (simp add: P_def of_int_le_iff [of 1 p, simplified])
  have V1: "1 \<le> V" using o0 by (simp add: V_def of_int_le_iff [of 1 ov, simplified])
  have U1: "1 \<le> U" using u0 by (simp add: U_def of_int_le_iff [of 1 u, simplified])
  have VU: "V \<le> U" using ou by (simp add: V_def U_def)
  have "of_int (p * ov) \<le> (of_int (2 ^ 51) :: rat)" using po by (simp only: of_int_le_iff)
  then have PV: "P * V \<le> 2251799813685248" by (simp add: P_def V_def)
  have "(of_int u :: rat) \<le> of_int (2 ^ 51)" using u51 by (simp only: of_int_le_iff)
  then have U51: "U \<le> 2251799813685248" by (simp add: U_def)
  have "(of_int p :: rat) \<le> of_int (2 ^ 51)" using p51 by (simp only: of_int_le_iff)
  then have P51: "P \<le> 2251799813685248" by (simp add: P_def)
  have ip: "int64_to_float64 p = Finite P"
    unfolding P_def using p0 p51 by (intro int64_to_float64_exact) simp_all
  have io: "int64_to_float64 ov = Finite V"
    unfolding V_def using o0 o51 by (intro int64_to_float64_exact) simp_all
  have iu: "int64_to_float64 u = Finite U"
    unfolding U_def using u0 u51 by (intro int64_to_float64_exact) simp_all
  define R where "R = V / U"
  have Rpos: "0 < R" using V1 U1 by (simp add: R_def)
  have R1: "R \<le> 1" using VU U1 by (simp add: R_def)
  have Rlo: "1 / 2251799813685248 \<le> R"
  proof -
    have "U \<le> 2251799813685248 * V" using U51 V1 by linarith
    then show ?thesis using U1 by (simp add: R_def field_simps)
  qed
  have Rlo': "1 / 2 ^ 70 \<le> R" by (rule order_trans [OF _ Rlo]) simp
  have Rhi': "R \<le> 2 ^ 69" by (rule order_trans [OF R1]) simp
  from round64_range [OF Rlo' Rhi'] obtain w where
    w: "round64 R = Finite w" "\<bar>w - R\<bar> \<le> R / 2 ^ 53" "R / 2 \<le> w" "w \<le> 2 * R" by blast
  have fd: "fdiv (int64_to_float64 ov) (int64_to_float64 u) = Finite w"
    using U1 by (simp add: io iu w(1) R_def [symmetric])
  define X where "X = P * R"
  have Xpos: "0 < X" using P1 Rpos by (simp add: X_def)
  have XU: "X * U = P * V" using U1 by (simp add: X_def R_def)
  have Pw_lo: "X / 2 \<le> P * w"
  proof -
    have "P * (R / 2) \<le> P * w" using w(3) P1 by (intro mult_left_mono) simp_all
    then show ?thesis by (simp add: X_def)
  qed
  have Pw_hi: "P * w \<le> 2 * X"
  proof -
    have "P * w \<le> P * (2 * R)" using w(4) P1 by (intro mult_left_mono) simp_all
    then show ?thesis by (simp add: X_def)
  qed
  have Xlo: "1 / 2251799813685248 \<le> X"
  proof -
    have "1 * R \<le> P * R" using P1 Rpos by (intro mult_right_mono) simp_all
    then have "R \<le> X" by (simp add: X_def)
    with Rlo show ?thesis by (rule order_trans)
  qed
  have Xhi: "X \<le> 2251799813685248"
  proof -
    have "P * R \<le> P * 1" using R1 P1 by (intro mult_left_mono) simp_all
    then show ?thesis using P51 by (simp add: X_def)
  qed
  have Pwlo': "1 / 2 ^ 70 \<le> P * w"
  proof -
    have "1 / 2251799813685248 / 2 \<le> P * w" using half_le [OF Pw_lo Xlo] .
    then show ?thesis by (rule order_trans [rotated]) simp
  qed
  have Pwhi': "P * w \<le> 2 ^ 69"
  proof -
    have "P * w \<le> 2 * 2251799813685248" using twice_le [OF Pw_hi Xhi] .
    then show ?thesis by (rule order_trans) simp
  qed
  from round64_range [OF Pwlo' Pwhi'] obtain y where
    y: "round64 (P * w) = Finite y" "\<bar>y - P * w\<bar> \<le> P * w / 2 ^ 53" "P * w / 2 \<le> y"
       "y \<le> 2 * (P * w)" by blast
  have fm: "fmul (int64_to_float64 p) (fdiv (int64_to_float64 ov) (int64_to_float64 u)) = Finite y"
    by (simp add: ip fd y(1))
  define D where "D = X / 2 ^ 53"
  have e1: "\<bar>P * w - X\<bar> \<le> D"
  proof -
    have "P * \<bar>w - R\<bar> \<le> P * (R / 2 ^ 53)" using w(2) P1 by (intro mult_left_mono) simp_all
    moreover have "P * \<bar>w - R\<bar> = \<bar>P * w - X\<bar>"
    proof -
      have "\<bar>P * w - X\<bar> = \<bar>P * (w - R)\<bar>" by (simp add: X_def algebra_simps)
      also have "\<dots> = \<bar>P\<bar> * \<bar>w - R\<bar>" by (rule abs_mult)
      also have "\<bar>P\<bar> = P" using P1 by simp
      finally show ?thesis by simp
    qed
    ultimately show ?thesis by (simp add: D_def X_def)
  qed
  have e3: "\<bar>y - P * w\<bar> \<le> 2 * D"
  proof -
    have "P * w / 2 ^ 53 \<le> 2 * X / 2 ^ 53" using Pw_hi by (intro divide_right_mono) simp_all
    then show ?thesis using y(2) by (simp add: D_def)
  qed
  have e: "\<bar>y - X\<bar> \<le> 3 * D" using e1 e3 by linarith
  have DU: "D * U \<le> 1 / 4"
  proof -
    have "D * U = P * V / 2 ^ 53" by (simp add: D_def XU [symmetric])
    also have "\<dots> \<le> 2251799813685248 / 2 ^ 53" using PV by (intro divide_right_mono) simp_all
    also have "\<dots> = 1 / 4" by simp
    finally show ?thesis .
  qed
  define q where "q = p * ov div u"
  define r where "r = p * ov mod u"
  have qr: "p * ov = q * u + r" by (simp add: q_def r_def)
  have r0: "0 \<le> r" and ru: "r \<le> u - 1" using u0 by (simp_all add: r_def)
  have "of_int (p * ov) = (of_int (q * u + r) :: rat)" using qr by simp
  then have "P * V = of_int q * U + of_int r" by (simp add: P_def V_def U_def)
  then have XUq: "X * U = of_int q * U + of_int r" by (simp only: XU)
  have R0: "0 \<le> (of_int r :: rat)" using r0 by simp
  have "(of_int r :: rat) \<le> of_int (u - 1)" using ru by (simp only: of_int_le_iff)
  then have RU: "(of_int r :: rat) \<le> U - 1" by (simp add: U_def)
  have U0: "0 < U" using U1 by linarith
  have yU_lo: "X * U - 3 * (D * U) \<le> y * U"
  proof -
    have "X - 3 * D \<le> y" using e by linarith
    then have "(X - 3 * D) * U \<le> y * U" using U0 by (intro mult_right_mono) simp_all
    then show ?thesis by (simp add: algebra_simps)
  qed
  have yU_hi: "y * U \<le> X * U + 3 * (D * U)"
  proof -
    have "y \<le> X + 3 * D" using e by linarith
    then have "y * U \<le> (X + 3 * D) * U" using U0 by (intro mult_right_mono) simp_all
    then show ?thesis by (simp add: algebra_simps)
  qed
  have lo: "of_int (q - 1) \<le> y"
  proof -
    have "(of_int q - 1) * U \<le> y * U"
      using yU_lo XUq DU R0 U1 by (simp add: algebra_simps)
    then have "of_int q - 1 \<le> y" using U0 by (simp only: mult_le_cancel_right_pos)
    then show ?thesis by simp
  qed
  have hi: "y < of_int (q + 1)"
  proof -
    have "y * U < (of_int q + 1) * U"
      using yU_hi XUq DU RU U1 by (simp add: algebra_simps)
    then have "y < of_int q + 1" using U0 by (simp only: mult_less_cancel_right_pos)
    then show ?thesis by simp
  qed
  have y0: "0 \<le> y" using half_le [OF y(3) Pwlo'] by simp
  have y62: "y \<le> 2 ^ 62"
  proof -
    have "y \<le> 2 * 2 ^ 69" using twice_le [OF y(4) Pwhi'] .
    moreover have "y \<le> 2 * (2 * 2251799813685248)"
      using twice_le [OF y(4) twice_le [OF Pw_hi Xhi]] .
    ultimately show ?thesis by simp
  qed
  have conv: "float64_to_int64 arch (Finite y) = \<lfloor>y\<rfloor>"
    using y0 y62 by (rule float64_to_int64_nonneg)
  have "q - 1 \<le> \<lfloor>y\<rfloor>" using lo by (simp only: le_floor_iff)
  moreover have "\<lfloor>y\<rfloor> < q + 1" using hi by (simp only: floor_less_iff)
  ultimately have "\<lfloor>y\<rfloor> = q - 1 \<or> \<lfloor>y\<rfloor> = q" by linarith
  then show ?thesis by (simp add: fm conv q_def)
qed

section \<open>No rule: fail open\<close>

text \<open>
  C5. With no rule set, \<open>AllowRequest\<close> admits the request and returns the duration \<open>-1\<close>,
  for every client, and leaves the map of limiters (and everything else) as it was.
\<close>

theorem AllowRequest_no_rule:
  "AllowRequest arch clientId n (g\<lparr>rule := None\<rparr>) = (g\<lparr>rule := None\<rparr>, (True, - 1))"
  by (simp add: AllowRequest_def)

section \<open>Facts about the limiter\<close>

lemma wrap64_id: "int64 x \<Longrightarrow> wrap64 x = x"
  by (simp add: int64_def wrap64_def)

lemma int64_wrap64: "int64 (wrap64 x)"
proof -
  have "0 \<le> (x + 2 ^ 63) mod 2 ^ 64" "(x + 2 ^ 63) mod 2 ^ 64 < (2 ^ 64 :: int)"
    by simp_all
  then show ?thesis by (simp add: int64_def wrap64_def)
qed

lemma sat64_id: "int64 x \<Longrightarrow> sat64 x = x"
  by (simp add: int64_def sat64_def)

lemma int64_float64_to_int64: "int64 (float64_to_int64 arch f)"
  by (cases f) (simp_all add: float64_to_int64_def Let_def int64_wrap64)

lemma Truncate_Now: "0 < u \<Longrightarrow> Truncate (Now n) u = Time (n - n mod u) Local"
  by (simp add: Truncate_def Now_def)

lemma currWindow_Allow_locked: "currWindow (Allow_locked r now l) = Truncate now (unit r)"
  by (simp add: Allow_locked_def Let_def)

lemma prevWindowOverlap_Allow_locked:
  assumes "0 < unit r" and "unit r < 2 ^ 63"
  shows "prevWindowOverlap r (Now n) (Allow_locked r (Now n) l) = unit r - n mod unit r"
proof -
  define k where "k = n mod unit r"
  have m: "0 \<le> k" "k < unit r" using assms(1) by (simp_all add: k_def)
  have "int64 k" using m assms(2) by (simp add: int64_def)
  then have s: "Sub (Now n) (Truncate (Now n) (unit r)) = k"
    unfolding Truncate_Now [OF assms(1)] by (simp add: Sub_def Now_def sat64_id k_def)
  have "int64 (unit r - k)" using m assms by (simp add: int64_def)
  then show ?thesis
    by (simp add: prevWindowOverlap_def currWindow_Allow_locked s wrap64_id) (simp add: k_def)
qed

lemma prevWindowOverlap_bounds:
  assumes "0 < unit r" and "unit r < 2 ^ 63"
  shows "0 < prevWindowOverlap r (Now n) (Allow_locked r (Now n) l)"
    and "prevWindowOverlap r (Now n) (Allow_locked r (Now n) l) \<le> unit r"
proof -
  define k where "k = n mod unit r"
  have m: "0 \<le> k" "k < unit r" using assms(1) by (simp_all add: k_def)
  have e: "prevWindowOverlap r (Now n) (Allow_locked r (Now n) l) = unit r - k"
    using assms by (simp add: prevWindowOverlap_Allow_locked k_def)
  show "0 < prevWindowOverlap r (Now n) (Allow_locked r (Now n) l)" using m by (simp add: e)
  show "prevWindowOverlap r (Now n) (Allow_locked r (Now n) l) \<le> unit r" using m by (simp add: e)
qed

lemma weighted_zero:
  assumes "0 < ov" and "ov \<le> u" and "u < 2 ^ 63"
  shows "float64_to_int64 arch (fmul (int64_to_float64 0)
            (fdiv (int64_to_float64 ov) (int64_to_float64 u))) = 0"
  using weighted_crude [of 0 ov u arch] assms by simp

lemma Allow_locked_newLimiter:
  assumes "0 < unit r"
  shows "Allow_locked r (Now n) newLimiter =
    \<lparr>prevWindow = zeroTime, prevCounter = 0, currWindow = Truncate (Now n) (unit r), currCounter = 0\<rparr>"
  using assms
  by (simp add: Allow_locked_def Let_def newLimiter_def Truncate_Now zeroTime_def Add_def)

lemma activeNumRequests_newLimiter:
  assumes "0 < unit r" and "unit r < 2 ^ 63"
  shows "activeNumRequests arch r (Now n) (Allow_locked r (Now n) newLimiter) = 0"
proof -
  let ?l = "Allow_locked r (Now n) newLimiter"
  have p: "prevCounter ?l = 0" "currCounter ?l = 0"
    using assms(1) by (simp_all add: Allow_locked_newLimiter)
  have "prevWindowWeightedCounter arch r (Now n) ?l = 0"
    unfolding prevWindowWeightedCounter_def p
    using prevWindowOverlap_bounds [OF assms] assms(2) by (intro weighted_zero)
  then show ?thesis by (simp add: activeNumRequests_def p wrap64_def)
qed

section \<open>Setting a rule\<close>

text \<open>
  C4, as the code has it. \<open>AddRule\<close> checks nothing and has no error to return: whatever
  \<open>maxRequests\<close> and \<open>unit\<close> are, zero and negative values too, it puts the new rule in
  place of the one before, and leaves the limiters alone.
\<close>

theorem AddRule_installs:
  "rule (AddRule m u g) = Some \<lparr>maxRequests = m, unit = u\<rparr>
   \<and> clientLimiterMap (AddRule m u g) = clientLimiterMap g"
  by (simp add: AddRule_def)

text \<open>
  C4 fails as stated: after a rule of 5 requests per second, \<open>AddRule(0, -1)\<close> is
  accepted and the rule of before is gone.
\<close>

theorem AddRule_invalid_counterexample:
  "rule (AddRule 0 (- 1) \<lparr>rule = Some \<lparr>maxRequests = 5, unit = 1000000000\<rparr>,
                           clientLimiterMap = Map.empty\<rparr>)
     = Some \<lparr>maxRequests = 0, unit = - 1\<rparr>
   \<and> rule (AddRule 0 (- 1) \<lparr>rule = Some \<lparr>maxRequests = 5, unit = 1000000000\<rparr>,
                             clientLimiterMap = Map.empty\<rparr>)
     \<noteq> Some \<lparr>maxRequests = 5, unit = 1000000000\<rparr>"
  by (simp add: AddRule_def)

section \<open>The duration returned\<close>

text \<open>
  C9. With a rule of positive unit set, the duration that \<open>AllowRequest\<close> returns is
  \<open>unit - (now - now.Truncate(unit))\<close>, more than 0 and at most the unit.
\<close>

theorem AllowRequest_duration_range:
  assumes "rule g = Some r" and "0 < unit r" and "unit r < 2 ^ 63"
  shows "snd (snd (AllowRequest arch clientId n g))
           = unit r - (n - nsec (Truncate (Now n) (unit r)))
       \<and> 0 < snd (snd (AllowRequest arch clientId n g))
       \<and> snd (snd (AllowRequest arch clientId n g)) \<le> unit r"
proof -
  define l where "l = (case clientLimiterMap g clientId of Some val \<Rightarrow> val | None \<Rightarrow> newLimiter)"
  have d: "snd (snd (AllowRequest arch clientId n g))
      = prevWindowOverlap r (Now n) (Allow_locked r (Now n) l)"
    by (simp add: AllowRequest_def assms(1) Allow_def Let_def l_def)
  have t: "unit r - (n - nsec (Truncate (Now n) (unit r))) = unit r - n mod unit r"
    using assms(2) by (simp add: Truncate_Now)
  show ?thesis
    unfolding d t
    using prevWindowOverlap_bounds [OF assms(2,3), of n l]
      prevWindowOverlap_Allow_locked [OF assms(2,3), of n l]
    by simp
qed

theorem AllowRequest_duration_range_witness:
  "rule \<lparr>rule = Some \<lparr>maxRequests = 5, unit = 1000000000\<rparr>, clientLimiterMap = Map.empty\<rparr>
     = Some \<lparr>maxRequests = 5, unit = 1000000000\<rparr>
   \<and> (0::int) < unit \<lparr>maxRequests = 5, unit = 1000000000\<rparr>
   \<and> unit \<lparr>maxRequests = 5, unit = 1000000000\<rparr> < 2 ^ 63
   \<and> snd (snd (AllowRequest amd64 ''A'' 1200000000
        \<lparr>rule = Some \<lparr>maxRequests = 5, unit = 1000000000\<rparr>, clientLimiterMap = Map.empty\<rparr>))
      = 800000000"
  using AllowRequest_duration_range [of
      "\<lparr>rule = Some \<lparr>maxRequests = 5, unit = 1000000000\<rparr>, clientLimiterMap = Map.empty\<rparr>"
      "\<lparr>maxRequests = 5, unit = 1000000000\<rparr>" amd64 "''A''" 1200000000]
  by (simp add: Truncate_def Now_def)

text \<open>
  C6, as the code has it. \<open>Allow\<close> returns the overlap that is left of the window,
  \<open>unit - (now - now.Truncate(unit))\<close>, on every call, the request admitted or rejected:
  the duration does not depend on the decision.
\<close>

theorem Allow_duration_always:
  assumes "0 < unit r" and "unit r < 2 ^ 63"
  shows "snd (snd (Allow arch r n l)) = prevWindowOverlap r (Now n) (fst (Allow arch r n l))
       \<and> snd (snd (Allow arch r n l)) = unit r - n mod unit r"
  using prevWindowOverlap_Allow_locked [OF assms, of n l]
  by (simp add: Allow_def Let_def)

theorem Allow_duration_always_witness:
  "(0::int) < unit \<lparr>maxRequests = 1, unit = 1000000000\<rparr>
   \<and> unit \<lparr>maxRequests = 1, unit = 1000000000\<rparr> < 2 ^ 63
   \<and> snd (snd (Allow amd64 \<lparr>maxRequests = 1, unit = 1000000000\<rparr> 500000000
        \<lparr>prevWindow = zeroTime, prevCounter = 0, currWindow = Time 0 Local, currCounter = 3\<rparr>))
      = 500000000"
  using Allow_duration_always [of "\<lparr>maxRequests = 1, unit = 1000000000\<rparr>" amd64 500000000
      "\<lparr>prevWindow = zeroTime, prevCounter = 0, currWindow = Time 0 Local, currCounter = 3\<rparr>"]
  by simp

text \<open>
  C6 fails as stated: under a rule of 5 requests per second a first request, 0.2 s into
  its window, is admitted and the duration 0.8 s comes back with it.
\<close>

theorem Allow_duration_admitted_counterexample:
  "Allow amd64 \<lparr>maxRequests = 5, unit = 1000000000\<rparr> 1200000000 newLimiter
     = (\<lparr>prevWindow = zeroTime, prevCounter = 0, currWindow = Time 1000000000 Local,
         currCounter = 0\<rparr>, (True, 800000000))"
proof -
  let ?r = "\<lparr>maxRequests = 5, unit = 1000000000\<rparr>"
  have u: "0 < unit ?r" "unit ?r < 2 ^ 63" by simp_all
  have l: "Allow_locked ?r (Now 1200000000) newLimiter
      = \<lparr>prevWindow = zeroTime, prevCounter = 0, currWindow = Time 1000000000 Local, currCounter = 0\<rparr>"
    by (simp add: Allow_locked_newLimiter Truncate_Now)
  have a: "activeNumRequests amd64 ?r (Now 1200000000) (Allow_locked ?r (Now 1200000000) newLimiter) = 0"
    using u by (rule activeNumRequests_newLimiter)
  have d: "prevWindowOverlap ?r (Now 1200000000) (Allow_locked ?r (Now 1200000000) newLimiter)
      = 800000000"
    using prevWindowOverlap_Allow_locked [OF u, of 1200000000 newLimiter] by simp
  show ?thesis
    unfolding Allow_def Let_def a d by (simp add: l)
qed

section \<open>A client's first request\<close>

text \<open>
  C10. Under a rule with \<open>maxRequests \<ge> 1\<close> (and a positive unit) the first request of a
  client with no limiter yet is admitted: the new limiter has both counters at 0 after its
  update, the number of active requests computed from it is 0, and it is stored for the client.
\<close>

theorem AllowRequest_first_request:
  assumes "rule g = Some r" and "clientLimiterMap g clientId = None"
    and "1 \<le> maxRequests r" and "0 < unit r" and "unit r < 2 ^ 63"
  shows "AllowRequest arch clientId n g
     = (g\<lparr>clientLimiterMap := (clientLimiterMap g)(clientId \<mapsto>
           \<lparr>prevWindow = zeroTime, prevCounter = 0,
            currWindow = Truncate (Now n) (unit r), currCounter = 0\<rparr>)\<rparr>,
        (True, unit r - n mod unit r))
   \<and> activeNumRequests arch r (Now n)
        \<lparr>prevWindow = zeroTime, prevCounter = 0,
         currWindow = Truncate (Now n) (unit r), currCounter = 0\<rparr> = 0"
proof -
  have u: "0 < unit r" "unit r < 2 ^ 63" using assms by simp_all
  have l: "Allow_locked r (Now n) newLimiter
      = \<lparr>prevWindow = zeroTime, prevCounter = 0, currWindow = Truncate (Now n) (unit r),
         currCounter = 0\<rparr>"
    using u(1) by (rule Allow_locked_newLimiter)
  have a: "activeNumRequests arch r (Now n) (Allow_locked r (Now n) newLimiter) = 0"
    using u by (rule activeNumRequests_newLimiter)
  have d: "prevWindowOverlap r (Now n) (Allow_locked r (Now n) newLimiter) = unit r - n mod unit r"
    using u by (rule prevWindowOverlap_Allow_locked)
  have "Allow arch r n newLimiter = (Allow_locked r (Now n) newLimiter, (True, unit r - n mod unit r))"
    unfolding Allow_def Let_def a d using assms(3) by simp
  then have "AllowRequest arch clientId n g
     = (g\<lparr>clientLimiterMap := (clientLimiterMap g)(clientId \<mapsto> Allow_locked r (Now n) newLimiter)\<rparr>,
        (True, unit r - n mod unit r))"
    by (simp add: AllowRequest_def assms(1,2))
  with a show ?thesis by (simp only: l)
qed

theorem AllowRequest_first_request_witness:
  "rule \<lparr>rule = Some \<lparr>maxRequests = 1, unit = 1000000000\<rparr>, clientLimiterMap = Map.empty\<rparr>
     = Some \<lparr>maxRequests = 1, unit = 1000000000\<rparr>
   \<and> clientLimiterMap \<lparr>rule = Some \<lparr>maxRequests = 1, unit = 1000000000\<rparr>,
                        clientLimiterMap = Map.empty\<rparr> ''A'' = None
   \<and> (1::int) \<le> maxRequests \<lparr>maxRequests = 1, unit = 1000000000\<rparr>
   \<and> (0::int) < unit \<lparr>maxRequests = 1, unit = 1000000000\<rparr>
   \<and> unit \<lparr>maxRequests = 1, unit = 1000000000\<rparr> < 2 ^ 63
   \<and> snd (AllowRequest amd64 ''A'' 1200000000
        \<lparr>rule = Some \<lparr>maxRequests = 1, unit = 1000000000\<rparr>, clientLimiterMap = Map.empty\<rparr>)
      = (True, 800000000)"
  using AllowRequest_first_request [of
      "\<lparr>rule = Some \<lparr>maxRequests = 1, unit = 1000000000\<rparr>, clientLimiterMap = Map.empty\<rparr>"
      "\<lparr>maxRequests = 1, unit = 1000000000\<rparr>" "''A''" amd64 1200000000]
  by simp

lemma Allow_locked_one_window:
  assumes "0 < unit r" and "unit r < 2 ^ 63"
    and "currWindow l = Add (Truncate (Now n) (unit r)) (- unit r)"
  shows "Allow_locked r (Now n) l =
    \<lparr>prevWindow = currWindow l, prevCounter = currCounter l,
     currWindow = Truncate (Now n) (unit r), currCounter = 0\<rparr>"
proof -
  have w: "wrap64 (- unit r) = - unit r"
    using assms(1,2) by (intro wrap64_id) (simp add: int64_def)
  have ne: "Truncate (Now n) (unit r) \<noteq> currWindow l"
    using assms(1) by (simp add: assms(3) Add_def Truncate_Now)
  show ?thesis
    using ne by (simp add: Allow_locked_def Let_def w assms(3) [symmetric])
qed

section \<open>One window later\<close>

text \<open>
  C1, as the code has it. When exactly one window has gone by since the limiter's current
  window (\<open>newPrevWindow == l.currWindow\<close>), \<open>Allow\<close> makes the current window and its
  counter the previous ones and starts the new current window with the counter at 0: the
  request that opens the window is not counted, the number of active requests is the
  weighted counter of the previous window alone, and the request is admitted when that
  is below \<open>maxRequests\<close>.
\<close>

theorem Allow_one_window_elapsed:
  assumes "0 < unit r" and "unit r < 2 ^ 63"
    and "currWindow l = Add (Truncate (Now n) (unit r)) (- unit r)"
  shows "Allow arch r n l =
      (\<lparr>prevWindow = currWindow l, prevCounter = currCounter l,
        currWindow = Truncate (Now n) (unit r), currCounter = 0\<rparr>,
       (prevWindowWeightedCounter arch r (Now n)
          \<lparr>prevWindow = currWindow l, prevCounter = currCounter l,
           currWindow = Truncate (Now n) (unit r), currCounter = 0\<rparr> < maxRequests r,
        unit r - n mod unit r))
    \<and> activeNumRequests arch r (Now n)
          \<lparr>prevWindow = currWindow l, prevCounter = currCounter l,
           currWindow = Truncate (Now n) (unit r), currCounter = 0\<rparr>
        = prevWindowWeightedCounter arch r (Now n)
          \<lparr>prevWindow = currWindow l, prevCounter = currCounter l,
           currWindow = Truncate (Now n) (unit r), currCounter = 0\<rparr>"
proof -
  let ?l = "\<lparr>prevWindow = currWindow l, prevCounter = currCounter l,
             currWindow = Truncate (Now n) (unit r), currCounter = 0\<rparr>"
  have l: "Allow_locked r (Now n) l = ?l" using assms by (rule Allow_locked_one_window)
  have a: "activeNumRequests arch r (Now n) ?l = prevWindowWeightedCounter arch r (Now n) ?l"
    by (simp add: activeNumRequests_def prevWindowWeightedCounter_def
        wrap64_id [OF int64_float64_to_int64])
  have d: "prevWindowOverlap r (Now n) ?l = unit r - n mod unit r"
    using prevWindowOverlap_Allow_locked [OF assms(1,2), of n l] by (simp only: l)
  have "Allow arch r n l = (?l, (prevWindowWeightedCounter arch r (Now n) ?l < maxRequests r,
      unit r - n mod unit r))"
    unfolding Allow_def Let_def l a d ..
  moreover note a
  ultimately show ?thesis by (rule conjI)
qed

text \<open>The weighted counter of the example: 5 requests in the previous window, 0.8 s of
  overlap left of a second.\<close>

lemma weighted_example:
  "prevWindowWeightedCounter arch \<lparr>maxRequests = 5, unit = 1000000000\<rparr> (Now 1200000000)
     \<lparr>prevWindow = Time 0 Local, prevCounter = 5,
      currWindow = Time 1000000000 Local, currCounter = 0\<rparr> = 4"
  by (simp add: prevWindowWeightedCounter_def prevWindowOverlap_def Sub_def Now_def sat64_def
      wrap64_def weighted_5_08)

theorem Allow_one_window_elapsed_witness:
  "(0::int) < unit \<lparr>maxRequests = 5, unit = 1000000000\<rparr>
   \<and> unit \<lparr>maxRequests = 5, unit = 1000000000\<rparr> < 2 ^ 63
   \<and> currWindow \<lparr>prevWindow = zeroTime, prevCounter = 0, currWindow = Time 0 Local, currCounter = 5\<rparr>
       = Add (Truncate (Now 1200000000) (unit \<lparr>maxRequests = 5, unit = 1000000000\<rparr>))
             (- unit \<lparr>maxRequests = 5, unit = 1000000000\<rparr>)
   \<and> Allow amd64 \<lparr>maxRequests = 5, unit = 1000000000\<rparr> 1200000000
         \<lparr>prevWindow = zeroTime, prevCounter = 0, currWindow = Time 0 Local, currCounter = 5\<rparr>
       = (\<lparr>prevWindow = Time 0 Local, prevCounter = 5,
           currWindow = Time 1000000000 Local, currCounter = 0\<rparr>, (True, 800000000))"
  using Allow_one_window_elapsed [of "\<lparr>maxRequests = 5, unit = 1000000000\<rparr>"
      "\<lparr>prevWindow = zeroTime, prevCounter = 0, currWindow = Time 0 Local, currCounter = 5\<rparr>"
      1200000000 amd64]
  by (simp add: Truncate_Now Add_def weighted_example)

text \<open>Evaluating a call at given numbers goes in three stages: the update, then the
  overlap and the counters.\<close>

lemmas Allow_locked_eval = Allow_locked_def Let_def newLimiter_def zeroTime_def Now_def
  Truncate_def Add_def

lemmas Allow_result_eval = activeNumRequests_def prevWindowWeightedCounter_def
  prevWindowOverlap_def Sub_def Now_def sat64_def wrap64_def

text \<open>
  C1 fails as stated, on the scenario of the example itself: under the rule of 5 requests
  per second, five requests in the first 0.4 s are admitted, the sixth at 0.5 s is
  rejected, and the request at 1.2 s opens the next window with its counter at 0 (not 1)
  and is admitted (not rejected), the number of active requests being 4 + 0.
\<close>

theorem Allow_fresh_window_counterexample:
  "Allow_seq amd64 \<lparr>maxRequests = 5, unit = 1000000000\<rparr>
     [0, 100000000, 200000000, 300000000, 400000000, 500000000, 1200000000] newLimiter
   = (\<lparr>prevWindow = Time 0 Local, prevCounter = 5,
        currWindow = Time 1000000000 Local, currCounter = 0\<rparr>,
      [(True, 1000000000), (True, 900000000), (True, 800000000), (True, 700000000),
       (True, 600000000), (False, 500000000), (True, 800000000)])"
proof -
  let ?r = "\<lparr>maxRequests = 5, unit = 1000000000\<rparr>"
  let ?l = "\<lambda>c. \<lparr>prevWindow = zeroTime, prevCounter = 0, currWindow = Time 0 Local, currCounter = c\<rparr>"
  have s1: "Allow amd64 ?r 0 newLimiter = (?l 0, (True, 1000000000))"
    by (simp add: Allow_def Let_def, simp add: Allow_locked_eval,
        simp add: Allow_result_eval weighted_zero)
  have s2: "Allow amd64 ?r 100000000 (?l 0) = (?l 1, (True, 900000000))"
    by (simp add: Allow_def Let_def, simp add: Allow_locked_eval,
        simp add: Allow_result_eval weighted_zero)
  have s3: "Allow amd64 ?r 200000000 (?l 1) = (?l 2, (True, 800000000))"
    by (simp add: Allow_def Let_def, simp add: Allow_locked_eval,
        simp add: Allow_result_eval weighted_zero)
  have s4: "Allow amd64 ?r 300000000 (?l 2) = (?l 3, (True, 700000000))"
    by (simp add: Allow_def Let_def, simp add: Allow_locked_eval,
        simp add: Allow_result_eval weighted_zero)
  have s5: "Allow amd64 ?r 400000000 (?l 3) = (?l 4, (True, 600000000))"
    by (simp add: Allow_def Let_def, simp add: Allow_locked_eval,
        simp add: Allow_result_eval weighted_zero)
  have s6: "Allow amd64 ?r 500000000 (?l 4) = (?l 5, (False, 500000000))"
    by (simp add: Allow_def Let_def, simp add: Allow_locked_eval,
        simp add: Allow_result_eval weighted_zero)
  have s7: "Allow amd64 ?r 1200000000 (?l 5)
      = (\<lparr>prevWindow = Time 0 Local, prevCounter = 5,
           currWindow = Time 1000000000 Local, currCounter = 0\<rparr>, (True, 800000000))"
    by (simp add: Allow_def Let_def, simp add: Allow_locked_eval,
        simp add: Allow_result_eval weighted_5_08)
  show ?thesis
    by (simp add: s1 s2 s3 s4 s5 s6 s7)
qed

lemma fdiv_zero:
  assumes "0 < u" and "u < 2 ^ 63"
  shows "fdiv (int64_to_float64 0) (int64_to_float64 u) = Finite 0"
proof -
  from int64_to_float64_pos [OF assms] obtain b where
    b: "int64_to_float64 u = Finite b" "of_int u / 2 \<le> b" by blast
  have "(0::rat) < of_int u" using assms(1) by simp
  with b(2) have "b \<noteq> 0" by linarith
  moreover have "int64_to_float64 0 = Finite 0" by (simp add: int64_to_float64_def round64_0)
  ultimately show ?thesis by (simp add: b(1) round64_0)
qed

lemma weighted_floor:
  assumes p: "0 \<le> p" and o: "0 \<le> ov" "ov \<le> u" and u: "0 < u" "u < 2 ^ 63"
    and pu: "p * u \<le> 2 ^ 51"
  shows "float64_to_int64 arch (fmul (int64_to_float64 p)
            (fdiv (int64_to_float64 ov) (int64_to_float64 u))) \<in> {p * ov div u - 1, p * ov div u}"
proof (cases "ov = 0")
  case True
  have "p * 1 \<le> p * u" using p u(1) by (intro mult_left_mono) simp_all
  then have "p < 2 ^ 63" using pu by simp
  from int64_to_float64_nonneg [OF p this] obtain a where a: "int64_to_float64 p = Finite a"
    by blast
  show ?thesis
    using True by (simp add: fdiv_zero [OF u] a round64_0 float64_to_int64_def int64_def)
next
  case False
  with o have opos: "0 < ov" by simp
  show ?thesis
  proof (cases "p = 0")
    case True
    then show ?thesis using weighted_zero [OF opos o(2) u(2)] by simp
  next
    case False
    with p have "0 < p" by simp
    then show ?thesis using opos o(2) pu by (rule weighted_floor_pos)
  qed
qed

section \<open>The weighted counter\<close>

text \<open>
  C7, as the code has it. The contribution of the previous window is the float64 product
  \<open>float64(prevCounter) * (float64(overlap) / float64(unit))\<close> cut to an \<open>int64\<close>, a
  function of the limiter, the rule and the clock reading. For a counter that is not
  negative, an overlap between 0 and the unit and \<open>prevCounter * unit \<le> 2\<^sup>5\<^sup>1\<close> it is the
  exact quotient \<open>\<lfloor>prevCounter * overlap / unit\<rfloor>\<close> or one less: the two roundings can
  leave the product just below a whole number.
\<close>

theorem prevWindowWeightedCounter_floor:
  assumes "0 \<le> prevCounter l" and "0 < unit r" and "unit r < 2 ^ 63"
    and "0 \<le> prevWindowOverlap r now l" and "prevWindowOverlap r now l \<le> unit r"
    and "prevCounter l * unit r \<le> 2 ^ 51"
  shows "prevWindowWeightedCounter arch r now l
           = prevCounter l * prevWindowOverlap r now l div unit r
       \<or> prevWindowWeightedCounter arch r now l
           = prevCounter l * prevWindowOverlap r now l div unit r - 1"
  using weighted_floor [OF assms(1,4,5,2,3,6), of arch]
  by (auto simp: prevWindowWeightedCounter_def)

theorem prevWindowWeightedCounter_floor_witness:
  "(0::int) \<le> prevCounter \<lparr>prevWindow = Time 0 Local, prevCounter = 5,
                             currWindow = Time 1000000000 Local, currCounter = 0\<rparr>
   \<and> (0::int) < unit \<lparr>maxRequests = 5, unit = 1000000000\<rparr>
   \<and> unit \<lparr>maxRequests = 5, unit = 1000000000\<rparr> < 2 ^ 63
   \<and> 0 \<le> prevWindowOverlap \<lparr>maxRequests = 5, unit = 1000000000\<rparr> (Now 1200000000)
          \<lparr>prevWindow = Time 0 Local, prevCounter = 5,
           currWindow = Time 1000000000 Local, currCounter = 0\<rparr>
   \<and> prevWindowOverlap \<lparr>maxRequests = 5, unit = 1000000000\<rparr> (Now 1200000000)
          \<lparr>prevWindow = Time 0 Local, prevCounter = 5,
           currWindow = Time 1000000000 Local, currCounter = 0\<rparr>
       \<le> unit \<lparr>maxRequests = 5, unit = 1000000000\<rparr>
   \<and> prevCounter \<lparr>prevWindow = Time 0 Local, prevCounter = 5,
                     currWindow = Time 1000000000 Local, currCounter = 0\<rparr>
       * unit \<lparr>maxRequests = 5, unit = 1000000000\<rparr> \<le> 2 ^ 51
   \<and> (prevWindowWeightedCounter amd64 \<lparr>maxRequests = 5, unit = 1000000000\<rparr> (Now 1200000000)
          \<lparr>prevWindow = Time 0 Local, prevCounter = 5,
           currWindow = Time 1000000000 Local, currCounter = 0\<rparr> = 4
      \<or> prevWindowWeightedCounter amd64 \<lparr>maxRequests = 5, unit = 1000000000\<rparr> (Now 1200000000)
          \<lparr>prevWindow = Time 0 Local, prevCounter = 5,
           currWindow = Time 1000000000 Local, currCounter = 0\<rparr> = 3)"
proof -
  have o: "prevWindowOverlap \<lparr>maxRequests = 5, unit = 1000000000\<rparr> (Now 1200000000)
          \<lparr>prevWindow = Time 0 Local, prevCounter = 5,
           currWindow = Time 1000000000 Local, currCounter = 0\<rparr> = 800000000"
    by (simp add: prevWindowOverlap_def Sub_def Now_def sat64_def wrap64_def)
  show ?thesis
    using prevWindowWeightedCounter_floor [of
      "\<lparr>prevWindow = Time 0 Local, prevCounter = 5,
        currWindow = Time 1000000000 Local, currCounter = 0\<rparr>"
      "\<lparr>maxRequests = 5, unit = 1000000000\<rparr>" "Now 1200000000" amd64]
    by (simp add: o)
qed

text \<open>
  C7 fails as stated: with 100 requests counted in the previous window and 0.29 s of
  overlap left of a second, the exact quotient is 29 and the code computes 28
  (\<open>0.29\<close> as a float64 is just below 29/100, and so is its product with 100 below 29).
\<close>

theorem prevWindowWeightedCounter_counterexample:
  "prevWindowOverlap \<lparr>maxRequests = 50, unit = 1000000000\<rparr> (Now 1710000000)
      \<lparr>prevWindow = Time 0 Local, prevCounter = 100,
       currWindow = Time 1000000000 Local, currCounter = 0\<rparr> = 290000000
   \<and> prevWindowWeightedCounter amd64 \<lparr>maxRequests = 50, unit = 1000000000\<rparr> (Now 1710000000)
      \<lparr>prevWindow = Time 0 Local, prevCounter = 100,
       currWindow = Time 1000000000 Local, currCounter = 0\<rparr> = 28
   \<and> \<lfloor>100 * 290000000 / 1000000000 :: rat\<rfloor> = 29"
proof -
  have f: "\<lfloor>29 :: rat\<rfloor> = 29" by (rule floor_unique) simp_all
  show ?thesis
    by (simp add: prevWindowWeightedCounter_def prevWindowOverlap_def Sub_def Now_def sat64_def
        wrap64_def weighted_100_029 f)
qed

lemma wrap64_neg_unit: "0 < u \<Longrightarrow> u < 2 ^ 63 \<Longrightarrow> wrap64 (- u) = - u"
  by (intro wrap64_id) (simp add: int64_def)

lemma fst_Allow: "fst (Allow arch r n l) = Allow_locked r (Now n) l"
  by (simp add: Allow_def Let_def)

lemma fst_Allow_seq_Cons:
  "fst (Allow_seq arch r (n # ns) l) = fst (Allow_seq arch r ns (Allow_locked r (Now n) l))"
  by (simp add: Let_def split_beta fst_Allow)

lemma snd_Allow_seq_Cons:
  "snd (Allow_seq arch r (n # ns) l)
     = snd (Allow arch r n l) # snd (Allow_seq arch r ns (Allow_locked r (Now n) l))"
  by (simp add: Let_def split_beta fst_Allow)

lemma length_Allow_seq: "length (snd (Allow_seq arch r ns l)) = length ns"
  by (induction ns arbitrary: l) (simp_all add: snd_Allow_seq_Cons del: Allow_seq.simps(2))

text \<open>The update keeps the previous window either unset or one unit before the current
  one, and makes the current window the one of the clock reading.\<close>

lemma Allow_locked_windows:
  assumes u: "0 < unit r" "unit r < 2 ^ 63"
    and inv: "prevWindow l = zeroTime \<or> prevWindow l = Add (currWindow l) (- unit r)"
  shows "prevWindow (Allow_locked r (Now n) l) = zeroTime
       \<or> prevWindow (Allow_locked r (Now n) l)
           = Add (currWindow (Allow_locked r (Now n) l)) (- unit r)"
  using inv by (auto simp: Allow_locked_def Let_def wrap64_neg_unit [OF u])

lemma Allow_seq_windows:
  assumes u: "0 < unit r" "unit r < 2 ^ 63"
  shows "ns \<noteq> [] \<Longrightarrow> prevWindow l = zeroTime \<or> prevWindow l = Add (currWindow l) (- unit r) \<Longrightarrow>
     currWindow (fst (Allow_seq arch r ns l)) = Truncate (Now (last ns)) (unit r)
     \<and> (prevWindow (fst (Allow_seq arch r ns l)) = zeroTime
        \<or> prevWindow (fst (Allow_seq arch r ns l))
            = Add (currWindow (fst (Allow_seq arch r ns l))) (- unit r))"
proof (induction ns arbitrary: l)
  case Nil
  then show ?case by simp
next
  case (Cons n ns)
  let ?l = "Allow_locked r (Now n) l"
  have inv: "prevWindow ?l = zeroTime \<or> prevWindow ?l = Add (currWindow ?l) (- unit r)"
    using u Cons.prems(2) by (rule Allow_locked_windows)
  show ?case
  proof (cases "ns = []")
    case True
    then show ?thesis
      using inv by (simp add: fst_Allow_seq_Cons currWindow_Allow_locked del: Allow_seq.simps(2))
  next
    case False
    have l: "last (n # ns) = last ns" using False by simp
    from Cons.IH [OF False inv] show ?thesis
      unfolding fst_Allow_seq_Cons l .
  qed
qed

section \<open>The windows of a limiter\<close>

text \<open>
  C8. After every call of \<open>Allow\<close> made on a limiter since its creation, under one rule
  of positive unit: the current window starts at the clock reading of the call truncated
  to the unit, \<open>\<lfloor>now / unit\<rfloor> * unit\<close>, and the previous window, when it is set (not the
  zero Time), starts one unit before the current one.
\<close>

theorem Allow_window_alignment:
  assumes "0 < unit r" and "unit r < 2 ^ 63" and "ns \<noteq> []"
  shows "currWindow (fst (Allow_seq arch r ns newLimiter))
           = Time (last ns div unit r * unit r) Local
       \<and> (prevWindow (fst (Allow_seq arch r ns newLimiter)) \<noteq> zeroTime \<longrightarrow>
            prevWindow (fst (Allow_seq arch r ns newLimiter))
              = Time (nsec (currWindow (fst (Allow_seq arch r ns newLimiter))) - unit r) Local)"
proof -
  let ?l = "fst (Allow_seq arch r ns newLimiter)"
  have "prevWindow newLimiter = zeroTime \<or> prevWindow newLimiter = Add (currWindow newLimiter) (- unit r)"
    by (simp add: newLimiter_def)
  from Allow_seq_windows [OF assms(1,2,3) this, of arch]
  have c: "currWindow ?l = Truncate (Now (last ns)) (unit r)"
    and p: "prevWindow ?l = zeroTime \<or> prevWindow ?l = Add (currWindow ?l) (- unit r)"
    by blast+
  have t: "Truncate (Now (last ns)) (unit r) = Time (last ns div unit r * unit r) Local"
    using assms(1) by (simp add: Truncate_Now minus_mod_eq_div_mult)
  show ?thesis using p by (auto simp: c t Add_def)
qed

theorem Allow_window_alignment_witness:
  "(0::int) < unit \<lparr>maxRequests = 5, unit = 1000000000\<rparr>
   \<and> unit \<lparr>maxRequests = 5, unit = 1000000000\<rparr> < 2 ^ 63
   \<and> [500000000, 1200000000] \<noteq> ([] :: int list)
   \<and> currWindow (fst (Allow_seq amd64 \<lparr>maxRequests = 5, unit = 1000000000\<rparr>
        [500000000, 1200000000] newLimiter)) = Time 1000000000 Local
   \<and> prevWindow (fst (Allow_seq amd64 \<lparr>maxRequests = 5, unit = 1000000000\<rparr>
        [500000000, 1200000000] newLimiter)) = Time 0 Local"
proof -
  have p: "prevWindow (fst (Allow_seq amd64 \<lparr>maxRequests = 5, unit = 1000000000\<rparr>
        [500000000, 1200000000] newLimiter)) \<noteq> zeroTime"
    by (simp add: fst_Allow_seq_Cons del: Allow_seq.simps(2))
      (simp add: Allow_locked_eval wrap64_def)
  show ?thesis
    using p Allow_window_alignment [of "\<lparr>maxRequests = 5, unit = 1000000000\<rparr>"
      "[500000000, 1200000000]" amd64]
    by simp
qed

lemma Allow_locked_same_window:
  assumes "currWindow l = Truncate (Now n) (unit r)"
  shows "Allow_locked r (Now n) l = l\<lparr>currCounter := wrap64 (currCounter l + 1)\<rparr>"
  using assms by (simp add: Allow_locked_def Let_def)

text \<open>What one update does to the counters, whatever the window the limiter was in.\<close>

lemma Allow_locked_counters:
  assumes p: "0 \<le> prevCounter l" "prevCounter l \<le> b" and c: "0 \<le> currCounter l" "currCounter l < b"
    and b: "b < 2 ^ 63"
  shows "0 \<le> prevCounter (Allow_locked r (Now n) l)"
    and "prevCounter (Allow_locked r (Now n) l) \<le> b"
    and "0 \<le> currCounter (Allow_locked r (Now n) l)"
    and "currCounter (Allow_locked r (Now n) l) \<le> currCounter l + 1"
proof -
  have w: "wrap64 (currCounter l + 1) = currCounter l + 1"
    using c b by (intro wrap64_id) (simp add: int64_def)
  show "0 \<le> prevCounter (Allow_locked r (Now n) l)"
    using p c by (simp add: Allow_locked_def Let_def)
  show "prevCounter (Allow_locked r (Now n) l) \<le> b"
    using p c by (simp add: Allow_locked_def Let_def)
  show "0 \<le> currCounter (Allow_locked r (Now n) l)"
    using c by (simp add: Allow_locked_def Let_def w)
  show "currCounter (Allow_locked r (Now n) l) \<le> currCounter l + 1"
    using c by (simp add: Allow_locked_def Let_def w)
qed

text \<open>Calls that fall in the limiter's current window add one to its counter each.\<close>

lemma Allow_seq_same_window:
  "\<forall>n\<in>set ns. Truncate (Now n) (unit r) = currWindow l \<Longrightarrow> 0 \<le> currCounter l \<Longrightarrow>
   currCounter l + int (length ns) < 2 ^ 63 \<Longrightarrow>
   fst (Allow_seq arch r ns l) = l\<lparr>currCounter := currCounter l + int (length ns)\<rparr>"
proof (induction ns arbitrary: l)
  case Nil
  then show ?case by simp
next
  case (Cons n ns)
  have same: "currWindow l = Truncate (Now n) (unit r)" using Cons.prems(1) by simp
  have "int64 (currCounter l + 1)" using Cons.prems(2,3) by (simp add: int64_def)
  then have l1: "Allow_locked r (Now n) l = l\<lparr>currCounter := currCounter l + 1\<rparr>"
    by (simp add: Allow_locked_same_window [OF same] wrap64_id)
  have "fst (Allow_seq arch r ns (l\<lparr>currCounter := currCounter l + 1\<rparr>))
      = l\<lparr>currCounter := currCounter l + 1\<rparr>
         \<lparr>currCounter := currCounter (l\<lparr>currCounter := currCounter l + 1\<rparr>) + int (length ns)\<rparr>"
    using Cons.prems by (intro Cons.IH) simp_all
  then show ?case
    by (simp add: fst_Allow_seq_Cons l1 add.assoc del: Allow_seq.simps(2))
qed

text \<open>A request is rejected once the counter of the current window, this request
  counted, has reached \<open>maxRequests\<close>.\<close>

lemma Allow_rejects:
  assumes u: "0 < unit r" "unit r < 2 ^ 63"
    and p: "0 \<le> prevCounter (Allow_locked r (Now n) l)" "prevCounter (Allow_locked r (Now n) l) < 2 ^ 57"
    and c: "maxRequests r \<le> currCounter (Allow_locked r (Now n) l)"
      "currCounter (Allow_locked r (Now n) l) < 2 ^ 57"
      "0 \<le> currCounter (Allow_locked r (Now n) l)"
  shows "\<not> fst (snd (Allow arch r n l))"
proof -
  let ?l = "Allow_locked r (Now n) l"
  let ?w = "prevWindowWeightedCounter arch r (Now n) ?l"
  note ob = prevWindowOverlap_bounds [OF u, of n l]
  have w: "0 \<le> ?w" "?w \<le> 32 * prevCounter ?l"
    unfolding prevWindowWeightedCounter_def
    using weighted_crude [OF p ob u(2), of arch] by simp_all
  have "int64 (?w + currCounter ?l)" using w p c by (simp add: int64_def)
  then have "activeNumRequests arch r (Now n) ?l = ?w + currCounter ?l"
    by (simp add: activeNumRequests_def wrap64_id)
  then have "maxRequests r \<le> activeNumRequests arch r (Now n) ?l" using w(1) c(1) by simp
  then show ?thesis by (simp add: Allow_def Let_def)
qed

section \<open>A full window\<close>

text \<open>
  C2. Under a rule of \<open>maxRequests = M \<ge> 1\<close> per unit, take a limiter of any client, in
  any state with counters that are not negative and below \<open>2\<^sup>5\<^sup>7\<close>, and requests \<open>ns\<close>
  that all fall in one aligned window \<open>W\<close>. If exactly \<open>M\<close> of them were admitted, then
  any further request that falls in \<open>W\<close> is rejected.
\<close>

theorem Allow_full_window_rejects:
  assumes r: "1 \<le> maxRequests r" "0 < unit r" "unit r < 2 ^ 63"
    and l: "0 \<le> prevCounter l" "prevCounter l < 2 ^ 57" "0 \<le> currCounter l"
      "currCounter l + int (length ns) + 1 < 2 ^ 57"
    and w: "\<forall>n\<in>set ns. Truncate (Now n) (unit r) = W" "Truncate (Now n') (unit r) = W"
    and m: "length (filter fst (snd (Allow_seq arch r ns l))) = nat (maxRequests r)"
  shows "\<not> fst (snd (Allow arch r n' (fst (Allow_seq arch r ns l))))"
proof (cases ns)
  case Nil
  with m r(1) show ?thesis by simp
next
  case (Cons n1 ns')
  let ?l1 = "Allow_locked r (Now n1) l"
  have len: "int (length ns) = int (length ns') + 1" by (simp add: Cons)
  have cb: "currCounter l < 2 ^ 57 - 1" using l(4) by simp
  have pb: "prevCounter l \<le> 2 ^ 57 - 1" using l(2) by simp
  have b: "(2 ^ 57 - 1 :: int) < 2 ^ 63" by simp
  note cs = Allow_locked_counters [OF l(1) pb l(3) cb b, of r n1]
  have p1: "0 \<le> prevCounter ?l1" "prevCounter ?l1 \<le> 2 ^ 57 - 1"
    and c1: "0 \<le> currCounter ?l1" "currCounter ?l1 \<le> currCounter l + 1"
    using cs by simp_all
  have w1: "currWindow ?l1 = W" using w(1) by (simp add: currWindow_Allow_locked Cons)
  let ?c = "currCounter ?l1 + int (length ns')"
  have lend: "fst (Allow_seq arch r ns l) = ?l1\<lparr>currCounter := ?c\<rparr>"
  proof -
    have "fst (Allow_seq arch r ns' ?l1) = ?l1\<lparr>currCounter := ?c\<rparr>"
      using w(1) c1 l(4) by (intro Allow_seq_same_window) (simp_all add: w1 Cons)
    then show ?thesis by (simp add: Cons fst_Allow_seq_Cons del: Allow_seq.simps(2))
  qed
  have "length (filter fst (snd (Allow_seq arch r ns l))) \<le> length (snd (Allow_seq arch r ns l))"
    by (rule length_filter_le)
  then have "nat (maxRequests r) \<le> length ns" by (simp add: m length_Allow_seq)
  then have M: "maxRequests r \<le> int (length ns') + 1" using len by linarith
  let ?le = "?l1\<lparr>currCounter := ?c\<rparr>"
  have same: "currWindow ?le = Truncate (Now n') (unit r)" by (simp add: w1 w(2))
  have "int64 (?c + 1)" using c1 l(4) len by (simp add: int64_def)
  then have fin: "Allow_locked r (Now n') ?le = ?l1\<lparr>currCounter := ?c + 1\<rparr>"
    by (simp add: Allow_locked_same_window [OF same] wrap64_id)
  have "\<not> fst (snd (Allow arch r n' ?le))"
  proof (rule Allow_rejects [OF r(2,3)])
    show "0 \<le> prevCounter (Allow_locked r (Now n') ?le)" using p1 by (simp add: fin)
    show "prevCounter (Allow_locked r (Now n') ?le) < 2 ^ 57" using p1 by (simp add: fin)
    show "maxRequests r \<le> currCounter (Allow_locked r (Now n') ?le)"
      using M c1 by (simp add: fin)
    show "currCounter (Allow_locked r (Now n') ?le) < 2 ^ 57"
      using c1 l(4) len by (simp add: fin)
    show "0 \<le> currCounter (Allow_locked r (Now n') ?le)"
      using c1 by (simp add: fin)
  qed
  then show ?thesis unfolding lend .
qed

theorem Allow_full_window_rejects_witness:
  "(1::int) \<le> maxRequests \<lparr>maxRequests = 2, unit = 1000000000\<rparr>
   \<and> (0::int) < unit \<lparr>maxRequests = 2, unit = 1000000000\<rparr>
   \<and> unit \<lparr>maxRequests = 2, unit = 1000000000\<rparr> < 2 ^ 63
   \<and> length (filter fst (snd (Allow_seq amd64 \<lparr>maxRequests = 2, unit = 1000000000\<rparr>
        [100000000, 200000000] newLimiter))) = 2
   \<and> Truncate (Now 100000000) 1000000000 = Time 0 Local
   \<and> Truncate (Now 200000000) 1000000000 = Time 0 Local
   \<and> Truncate (Now 300000000) 1000000000 = Time 0 Local
   \<and> \<not> fst (snd (Allow amd64 \<lparr>maxRequests = 2, unit = 1000000000\<rparr> 300000000
        (fst (Allow_seq amd64 \<lparr>maxRequests = 2, unit = 1000000000\<rparr>
           [100000000, 200000000] newLimiter))))"
proof -
  let ?r = "\<lparr>maxRequests = 2, unit = 1000000000\<rparr>"
  let ?l = "\<lambda>c. \<lparr>prevWindow = zeroTime, prevCounter = 0, currWindow = Time 0 Local, currCounter = c\<rparr>"
  have s1: "Allow amd64 ?r 100000000 newLimiter = (?l 0, (True, 900000000))"
    by (simp add: Allow_def Let_def, simp add: Allow_locked_eval,
        simp add: Allow_result_eval weighted_zero)
  have s2: "Allow amd64 ?r 200000000 (?l 0) = (?l 1, (True, 800000000))"
    by (simp add: Allow_def Let_def, simp add: Allow_locked_eval,
        simp add: Allow_result_eval weighted_zero)
  have m: "length (filter fst (snd (Allow_seq amd64 ?r [100000000, 200000000] newLimiter))) = 2"
    by (simp add: s1 s2)
  have t: "Truncate (Now 100000000) 1000000000 = Time 0 Local"
    "Truncate (Now 200000000) 1000000000 = Time 0 Local"
    "Truncate (Now 300000000) 1000000000 = Time 0 Local"
    by (simp_all add: Truncate_Now)
  have "\<not> fst (snd (Allow amd64 ?r 300000000 (fst (Allow_seq amd64 ?r [100000000, 200000000] newLimiter))))"
  proof (rule Allow_full_window_rejects [where W = "Time 0 Local"])
    show "length (filter fst (snd (Allow_seq amd64 ?r [100000000, 200000000] newLimiter)))
        = nat (maxRequests ?r)"
      using m by simp
  qed (simp_all add: t newLimiter_def)
  with m t show ?thesis by simp
qed

lemma Allow_pair: "Allow arch r n l = (Allow_locked r (Now n) l, snd (Allow arch r n l))"
  by (simp add: Allow_def Let_def)

lemma run_append:
  "run arch r clientId clock (xs @ ys) c
     = run arch r clientId clock ys (run arch r clientId clock xs c)"
  by (induction xs arbitrary: c) simp_all

lemma sequential_Suc: "sequential (Suc k) = sequential k @ [k, k, k]"
  by (simp add: sequential_def)

text \<open>The first goroutine finds nothing, stores a new Limiter and calls \<open>Allow\<close> on it.\<close>

lemma run_first:
  assumes m: "limiterMap c clientId = None" and g: "goroutines c = replicate N AtLoad" and N: "0 < N"
    and u: "0 < unit r"
  shows "\<exists>ok d. run arch r clientId clock [0, 0, 0] c =
    c\<lparr>limiterMap := (limiterMap c)(clientId \<mapsto> length (limiters c)),
      limiters := limiters c @ [\<lparr>prevWindow = zeroTime, prevCounter = 0,
        currWindow = Truncate (Now (clock 0)) (unit r), currCounter = 0\<rparr>],
      goroutines := (replicate N AtLoad)[0 := Returned ok d]\<rparr>"
proof -
  obtain ok d where a: "snd (Allow arch r (clock 0) newLimiter) = (ok, d)"
    by (cases "snd (Allow arch r (clock 0) newLimiter)")
  have al: "Allow arch r (clock 0) newLimiter = (\<lparr>prevWindow = zeroTime, prevCounter = 0,
      currWindow = Truncate (Now (clock 0)) (unit r), currCounter = 0\<rparr>, (ok, d))"
    using Allow_pair [of arch r "clock 0" newLimiter]
    by (simp add: a Allow_locked_newLimiter [OF u])
  have "run arch r clientId clock [0, 0, 0] c =
    c\<lparr>limiterMap := (limiterMap c)(clientId \<mapsto> length (limiters c)),
      limiters := limiters c @ [\<lparr>prevWindow = zeroTime, prevCounter = 0,
        currWindow = Truncate (Now (clock 0)) (unit r), currCounter = 0\<rparr>],
      goroutines := (replicate N AtLoad)[0 := Returned ok d]\<rparr>"
    using N by (simp add: step_def m g Let_def al)
  then show ?thesis by blast
qed

text \<open>A later goroutine finds the Limiter in the map and calls \<open>Allow\<close> on it, in the
  window the Limiter is in.\<close>

lemma run_next:
  assumes m: "limiterMap c clientId = Some a" and a: "a < length (limiters c)"
    and w: "currWindow (limiters c ! a) = Truncate (Now (clock k)) (unit r)"
    and cc: "0 \<le> currCounter (limiters c ! a)" "currCounter (limiters c ! a) + 1 < 2 ^ 63"
    and k: "k < length (goroutines c)" "goroutines c ! k = AtLoad"
  shows "\<exists>ok d. run arch r clientId clock [k, k, k] c =
    c\<lparr>limiters := (limiters c)[a := (limiters c ! a)\<lparr>currCounter := currCounter (limiters c ! a) + 1\<rparr>],
      goroutines := (goroutines c)[k := Returned ok d]\<rparr>"
proof -
  let ?l = "limiters c ! a"
  obtain ok d where s: "snd (Allow arch r (clock k) ?l) = (ok, d)"
    by (cases "snd (Allow arch r (clock k) ?l)")
  have "int64 (currCounter ?l + 1)" using cc by (simp add: int64_def)
  then have "Allow_locked r (Now (clock k)) ?l = ?l\<lparr>currCounter := currCounter ?l + 1\<rparr>"
    by (simp add: Allow_locked_same_window [OF w] wrap64_id)
  then have al: "Allow arch r (clock k) ?l = (?l\<lparr>currCounter := currCounter ?l + 1\<rparr>, (ok, d))"
    using Allow_pair [of arch r "clock k" ?l] by (simp add: s)
  have "run arch r clientId clock [k, k, k] c =
    c\<lparr>limiters := (limiters c)[a := ?l\<lparr>currCounter := currCounter ?l + 1\<rparr>],
      goroutines := (goroutines c)[k := Returned ok d]\<rparr>"
    using k a by (simp add: step_def m Let_def al)
  then show ?thesis by blast
qed

lemma run_sequential:
  assumes m: "limiterMap c clientId = None" and g: "goroutines c = replicate N AtLoad"
    and u: "0 < unit r" and N: "int N < 2 ^ 57"
    and win: "\<forall>i<N. Truncate (Now (clock i)) (unit r) = W"
  shows "Suc j \<le> N \<Longrightarrow>
    \<exists>gs. run arch r clientId clock (sequential (Suc j)) c =
      c\<lparr>limiterMap := (limiterMap c)(clientId \<mapsto> length (limiters c)),
        limiters := limiters c @ [\<lparr>prevWindow = zeroTime, prevCounter = 0,
          currWindow = W, currCounter = int j\<rparr>],
        goroutines := gs\<rparr>
      \<and> length gs = N
      \<and> (\<forall>i\<le>j. \<exists>ok d. gs ! i = Returned ok d)
      \<and> (\<forall>i. j < i \<and> i < N \<longrightarrow> gs ! i = AtLoad)"
proof (induction j)
  case 0
  then have N0: "0 < N" by simp
  have w0: "Truncate (Now (clock 0)) (unit r) = W" using win N0 by simp
  from run_first [OF m g N0 u, of arch clock] obtain ok d where
    r0: "run arch r clientId clock [0, 0, 0] c =
      c\<lparr>limiterMap := (limiterMap c)(clientId \<mapsto> length (limiters c)),
        limiters := limiters c @ [\<lparr>prevWindow = zeroTime, prevCounter = 0,
          currWindow = W, currCounter = 0\<rparr>],
        goroutines := (replicate N AtLoad)[0 := Returned ok d]\<rparr>"
    unfolding w0 by blast
  have s: "sequential (Suc 0) = [0, 0, 0]" by (simp add: sequential_def)
  show ?case
  proof (intro exI conjI)
    show "run arch r clientId clock (sequential (Suc 0)) c =
      c\<lparr>limiterMap := (limiterMap c)(clientId \<mapsto> length (limiters c)),
        limiters := limiters c @ [\<lparr>prevWindow = zeroTime, prevCounter = 0,
          currWindow = W, currCounter = int 0\<rparr>],
        goroutines := (replicate N AtLoad)[0 := Returned ok d]\<rparr>"
      using r0 by (simp only: s of_nat_0)
    show "length ((replicate N AtLoad)[0 := Returned ok d]) = N" by simp
    show "\<forall>i\<le>0. \<exists>ok' d'. (replicate N AtLoad)[0 := Returned ok d] ! i = Returned ok' d'"
      using N0 by simp
    show "\<forall>i. 0 < i \<and> i < N \<longrightarrow> (replicate N AtLoad)[0 := Returned ok d] ! i = AtLoad"
      by simp
  qed
next
  case (Suc j)
  then have jN: "Suc j \<le> N" and j1: "Suc j < N" by simp_all
  from Suc.IH [OF jN] obtain gs where
    rj: "run arch r clientId clock (sequential (Suc j)) c =
      c\<lparr>limiterMap := (limiterMap c)(clientId \<mapsto> length (limiters c)),
        limiters := limiters c @ [\<lparr>prevWindow = zeroTime, prevCounter = 0,
          currWindow = W, currCounter = int j\<rparr>],
        goroutines := gs\<rparr>"
    and len: "length gs = N"
    and ret: "\<forall>i\<le>j. \<exists>ok d. gs ! i = Returned ok d"
    and todo: "\<forall>i. j < i \<and> i < N \<longrightarrow> gs ! i = AtLoad" by blast
  let ?c = "c\<lparr>limiterMap := (limiterMap c)(clientId \<mapsto> length (limiters c)),
        limiters := limiters c @ [\<lparr>prevWindow = zeroTime, prevCounter = 0,
          currWindow = W, currCounter = int j\<rparr>],
        goroutines := gs\<rparr>"
  have jb: "int j + 1 < 2 ^ 63" using N j1 by simp
  have "\<exists>ok d. run arch r clientId clock [Suc j, Suc j, Suc j] ?c =
    ?c\<lparr>limiters := (limiters ?c)[length (limiters c) :=
          (limiters ?c ! length (limiters c))
            \<lparr>currCounter := currCounter (limiters ?c ! length (limiters c)) + 1\<rparr>],
       goroutines := (goroutines ?c)[Suc j := Returned ok d]\<rparr>"
    by (rule run_next) (use jb j1 len todo win in simp_all)
  then obtain ok d where
    nx: "run arch r clientId clock [Suc j, Suc j, Suc j] ?c =
      c\<lparr>limiterMap := (limiterMap c)(clientId \<mapsto> length (limiters c)),
        limiters := limiters c @ [\<lparr>prevWindow = zeroTime, prevCounter = 0,
          currWindow = W, currCounter = int (Suc j)\<rparr>],
        goroutines := gs[Suc j := Returned ok d]\<rparr>"
    by (auto simp: add.commute)
  show ?case
  proof (intro exI conjI)
    show "run arch r clientId clock (sequential (Suc (Suc j))) c =
      c\<lparr>limiterMap := (limiterMap c)(clientId \<mapsto> length (limiters c)),
        limiters := limiters c @ [\<lparr>prevWindow = zeroTime, prevCounter = 0,
          currWindow = W, currCounter = int (Suc j)\<rparr>],
        goroutines := gs[Suc j := Returned ok d]\<rparr>"
      by (simp only: sequential_Suc [of "Suc j"] run_append rj nx)
    show "length (gs[Suc j := Returned ok d]) = N" using len by simp
    show "\<forall>i\<le>Suc j. \<exists>ok' d'. gs[Suc j := Returned ok d] ! i = Returned ok' d'"
    proof (intro allI impI)
      fix i assume i: "i \<le> Suc j"
      show "\<exists>ok' d'. gs[Suc j := Returned ok d] ! i = Returned ok' d'"
      proof (cases "i = Suc j")
        case True
        then show ?thesis using j1 len by simp
      next
        case False
        with i have "i \<le> j" by simp
        with ret False show ?thesis by simp
      qed
    qed
    show "\<forall>i. Suc j < i \<and> i < N \<longrightarrow> gs[Suc j := Returned ok d] ! i = AtLoad"
      using todo by simp
  qed
qed

section \<open>The limiter of a new client\<close>

text \<open>
  Calls that do not overlap. For a key with no entry in the map, \<open>N\<close> calls of
  \<open>AllowRequest\<close> with that key that run one after the other, at clock readings in one
  window \<open>W\<close>, create one Limiter and store it under the key, and every call updates
  this Limiter: it ends with the previous counter at 0 and the current counter at
  \<open>N - 1\<close>, the call that opened the window not being counted.
\<close>

lemma AllowRequest_sequential_one_limiter:
  assumes "limiterMap c clientId = None" and "goroutines c = replicate N AtLoad"
    and "0 < N" and "int N < 2 ^ 57" and "0 < unit r"
    and "\<forall>i<N. Truncate (Now (clock i)) (unit r) = W"
  shows "\<exists>gs. run arch r clientId clock (sequential N) c =
      c\<lparr>limiterMap := (limiterMap c)(clientId \<mapsto> length (limiters c)),
        limiters := limiters c @ [\<lparr>prevWindow = zeroTime, prevCounter = 0,
          currWindow = W, currCounter = int N - 1\<rparr>],
        goroutines := gs\<rparr>
      \<and> length gs = N
      \<and> (\<forall>i<N. \<exists>ok d. gs ! i = Returned ok d)"
proof -
  obtain j where j: "N = Suc j" using assms(3) by (cases N) simp_all
  have "Suc j \<le> N" by (simp add: j)
  from run_sequential [OF assms(1,2,5,4,6) this, of arch] obtain gs where
    rj: "run arch r clientId clock (sequential (Suc j)) c =
      c\<lparr>limiterMap := (limiterMap c)(clientId \<mapsto> length (limiters c)),
        limiters := limiters c @ [\<lparr>prevWindow = zeroTime, prevCounter = 0,
          currWindow = W, currCounter = int j\<rparr>],
        goroutines := gs\<rparr>"
    and len: "length gs = N"
    and ret: "\<forall>i\<le>j. \<exists>ok d. gs ! i = Returned ok d" by blast
  have e: "int N - 1 = int j" by (simp add: j)
  have all: "\<forall>i<N. \<exists>ok d. gs ! i = Returned ok d" using ret by (simp add: j less_Suc_eq_le)
  show ?thesis
  proof (intro exI conjI)
    show "run arch r clientId clock (sequential N) c =
      c\<lparr>limiterMap := (limiterMap c)(clientId \<mapsto> length (limiters c)),
        limiters := limiters c @ [\<lparr>prevWindow = zeroTime, prevCounter = 0,
          currWindow = W, currCounter = int N - 1\<rparr>],
        goroutines := gs\<rparr>"
      using rj unfolding e by (simp only: j)
    show "length gs = N" by (rule len)
    show "\<forall>i<N. \<exists>ok d. gs ! i = Returned ok d" by (rule all)
  qed
qed

text \<open>Calls under the rule of 5 requests per second, 0.2 s and 0.3 s into a window.\<close>

lemma Allow_example_first:
  "Allow amd64 \<lparr>maxRequests = 5, unit = 1000000000\<rparr> 1200000000 newLimiter
     = (\<lparr>prevWindow = zeroTime, prevCounter = 0, currWindow = Time 1000000000 Local,
         currCounter = 0\<rparr>, (True, 800000000))"
  by (simp add: Allow_def Let_def, simp add: Allow_locked_eval wrap64_def,
      simp add: Allow_result_eval weighted_zero)

lemma Allow_example_second:
  "Allow amd64 \<lparr>maxRequests = 5, unit = 1000000000\<rparr> 1300000000
       \<lparr>prevWindow = zeroTime, prevCounter = 0, currWindow = Time 1000000000 Local,
         currCounter = 0\<rparr>
     = (\<lparr>prevWindow = zeroTime, prevCounter = 0, currWindow = Time 1000000000 Local,
         currCounter = 1\<rparr>, (True, 700000000))"
  by (simp add: Allow_def Let_def, simp add: Allow_locked_eval wrap64_def,
      simp add: Allow_result_eval weighted_zero)

lemma Allow_example_other:
  "Allow amd64 \<lparr>maxRequests = 5, unit = 1000000000\<rparr> 1300000000 newLimiter
     = (\<lparr>prevWindow = zeroTime, prevCounter = 0, currWindow = Time 1000000000 Local,
         currCounter = 0\<rparr>, (True, 700000000))"
  by (simp add: Allow_def Let_def, simp add: Allow_locked_eval wrap64_def,
      simp add: Allow_result_eval weighted_zero)

text \<open>
  Two goroutines of a new client, the second starting when the first has returned: the
  second finds the Limiter of the first in the map and updates it.
\<close>

lemma AllowRequest_one_after_the_other:
  "run amd64 \<lparr>maxRequests = 5, unit = 1000000000\<rparr> ''A''
     (\<lambda>i. 1200000000 + 100000000 * int i) [0, 0, 0, 1, 1, 1]
     \<lparr>limiterMap = Map.empty, limiters = [], goroutines = [AtLoad, AtLoad]\<rparr>
   = \<lparr>limiterMap = [''A'' \<mapsto> 0],
      limiters = [\<lparr>prevWindow = zeroTime, prevCounter = 0,
                   currWindow = Time 1000000000 Local, currCounter = 1\<rparr>],
      goroutines = [Returned True 800000000, Returned True 700000000]\<rparr>"
  by (simp add: step_def Let_def Allow_example_first Allow_example_second)

text \<open>
  C3. The claim asks for an atomic get-or-create: concurrent calls of \<open>AllowRequest\<close> for
  a key with no entry create one Limiter and all work on it. The code does not do that.
  The \<open>Load\<close> and the \<open>Store\<close> of \<open>AllowRequest\<close> are two steps, and the map can change
  between them. With the same two goroutines as above, when both load before either
  stores, each finds nothing, each creates a Limiter and stores it, the second \<open>Store\<close>
  replacing the first, and each calls \<open>Allow\<close> on its own Limiter: two Limiters for one
  client, the first no longer in the map, and the update of the first call lost to the
  Limiter that the map keeps.
\<close>

theorem AllowRequest_interleaved_two_limiters:
  "run amd64 \<lparr>maxRequests = 5, unit = 1000000000\<rparr> ''A''
     (\<lambda>i. 1200000000 + 100000000 * int i) [0, 1, 0, 1, 0, 1]
     \<lparr>limiterMap = Map.empty, limiters = [], goroutines = [AtLoad, AtLoad]\<rparr>
   = \<lparr>limiterMap = [''A'' \<mapsto> 1],
      limiters = [\<lparr>prevWindow = zeroTime, prevCounter = 0,
                   currWindow = Time 1000000000 Local, currCounter = 0\<rparr>,
                  \<lparr>prevWindow = zeroTime, prevCounter = 0,
                   currWindow = Time 1000000000 Local, currCounter = 0\<rparr>],
      goroutines = [Returned True 800000000, Returned True 700000000]\<rparr>"
  by (simp add: step_def Let_def Allow_example_first Allow_example_other)

end
